theory Spec2Isabelle
  imports Main "HOL-Library.Word"
begin

section \<open>Text primitives of the Python runtime\<close>

text \<open>
  The program \<^verbatim>\<open>edm_iso_tester.py\<close> works on byte buffers and on the lines
  decoded from them. A byte is an 8-bit word. A Python \<^verbatim>\<open>str\<close> whose code points
  are below 256 (what the latin-1 decoding of the normalizer and of the comparator
  yields) is a \<^typ>\<open>string\<close>: the character \<^term>\<open>c\<close> stands for the code point
  \<^term>\<open>of_char c :: nat\<close>. Python integers are \<^typ>\<open>int\<close>.
\<close>

type_synonym byte = "8 word"

definition cp :: "char \<Rightarrow> nat" where
  "cp c = of_char c"

text \<open>
  \<^verbatim>\<open>str.isspace\<close>, which is also the class \<^verbatim>\<open>\s\<close> of \<^verbatim>\<open>re\<close> on
  \<^verbatim>\<open>str\<close> patterns and what \<^verbatim>\<open>str.strip()\<close> removes: below 256 these are
  TAB, LF, VT, FF, CR, the separators FS, GS, RS, US, the space, NEL and the no-break space.
\<close>

definition is_space :: "char \<Rightarrow> bool" where
  "is_space c = ((9 \<le> cp c \<and> cp c \<le> 13) \<or> (28 \<le> cp c \<and> cp c \<le> 32)
                 \<or> cp c = 133 \<or> cp c = 160)"

text \<open>The class \<^verbatim>\<open>\d\<close>: the decimal digits; below 256 only \<^verbatim>\<open>0\<close> to \<^verbatim>\<open>9\<close>.\<close>

definition is_digit :: "char \<Rightarrow> bool" where
  "is_digit c = (48 \<le> cp c \<and> cp c \<le> 57)"

text \<open>
  The class \<^verbatim>\<open>\w\<close>: the underscore and every alphanumeric code point. Below 256 the
  alphanumerics are the ASCII letters and digits, the letters of the upper half
  (0xAA, 0xB5, 0xBA, 0xC0 to 0xFF without the signs 0xD7 and 0xF7), the superscript
  digits (0xB2, 0xB3, 0xB9) and the vulgar fractions (0xBC to 0xBE).
\<close>

definition is_word :: "char \<Rightarrow> bool" where
  "is_word c =
     ((48 \<le> cp c \<and> cp c \<le> 57) \<or> (65 \<le> cp c \<and> cp c \<le> 90) \<or> cp c = 95
      \<or> (97 \<le> cp c \<and> cp c \<le> 122)
      \<or> cp c = 170 \<or> cp c = 178 \<or> cp c = 179 \<or> cp c = 181 \<or> cp c = 185 \<or> cp c = 186
      \<or> (188 \<le> cp c \<and> cp c \<le> 190)
      \<or> (192 \<le> cp c \<and> cp c \<le> 214) \<or> (216 \<le> cp c \<and> cp c \<le> 246)
      \<or> (248 \<le> cp c \<and> cp c \<le> 255))"

text \<open>
  The line boundaries of \<^verbatim>\<open>str.splitlines()\<close>: LF, VT, FF, CR, FS, GS, RS and NEL
  (CR followed by LF is one boundary).
\<close>

definition is_linebreak :: "char \<Rightarrow> bool" where
  "is_linebreak c = ((10 \<le> cp c \<and> cp c \<le> 13) \<or> (28 \<le> cp c \<and> cp c \<le> 30) \<or> cp c = 133)"

definition CR :: char where
  "CR = CHR 0x0D"

definition LF :: char where
  "LF = CHR 0x0A"

text \<open>\<^verbatim>\<open>s.lstrip()\<close>, \<^verbatim>\<open>s.rstrip()\<close> and \<^verbatim>\<open>s.strip()\<close>.\<close>

definition lstrip :: "string \<Rightarrow> string" where
  "lstrip s = dropWhile is_space s"

definition rstrip :: "string \<Rightarrow> string" where
  "rstrip s = rev (dropWhile is_space (rev s))"

definition strip :: "string \<Rightarrow> string" where
  "strip s = rstrip (lstrip s)"

text \<open>
  \<^verbatim>\<open>text.splitlines()\<close>: the pending line is kept reversed in \<open>cur\<close>; a boundary
  closes it; what is pending at the end is a line unless it is empty.
\<close>

fun splitlines_from :: "string \<Rightarrow> string \<Rightarrow> string list" where
  "splitlines_from cur [] = (if cur = [] then [] else [rev cur])"
| "splitlines_from cur [c] =
     (if is_linebreak c then [rev cur] else [rev (c # cur)])"
| "splitlines_from cur (c # d # rest) =
     (if c = CR \<and> d = LF then rev cur # splitlines_from [] rest
      else if is_linebreak c then rev cur # splitlines_from [] (d # rest)
      else splitlines_from (c # cur) (d # rest))"

definition splitlines :: "string \<Rightarrow> string list" where
  "splitlines s = splitlines_from [] s"

text \<open>\<^verbatim>\<open>sep.join(lines)\<close>.\<close>

fun join :: "string \<Rightarrow> string list \<Rightarrow> string" where
  "join sep [] = []"
| "join sep [l] = l"
| "join sep (l # m # ls) = l @ sep @ join sep (m # ls)"

text \<open>
  The decimal text of an integer, which \<^verbatim>\<open>str(n)\<close> and the f-string
  \<^verbatim>\<open>f"N{n} ..."\<close> give when they give a text.
\<close>

definition digit_char :: "nat \<Rightarrow> char" where
  "digit_char d = char_of (48 + d)"

fun str_nat :: "nat \<Rightarrow> string" where
  "str_nat n = (if n < 10 then [digit_char n] else str_nat (n div 10) @ [digit_char (n mod 10)])"

declare str_nat.simps [simp del]

definition str_int :: "int \<Rightarrow> string" where
  "str_int i = (if i < 0 then CHR ''-'' # str_nat (nat (- i)) else str_nat (nat i))"

text \<open>The number that a string of decimal digits writes.\<close>

definition digit_val :: "char \<Rightarrow> nat" where
  "digit_val c = cp c - 48"

definition int_of_digits :: "string \<Rightarrow> int" where
  "int_of_digits ds = int (foldl (\<lambda>acc c. 10 * acc + digit_val c) 0 ds)"

text \<open>
  The interpreter limits the conversions between integers and decimal text: with the
  default limit of 4300 digits, \<^verbatim>\<open>str(n)\<close> (and so the f-string) raises
  \<^verbatim>\<open>ValueError\<close> when \<open>n\<close> has more than 4300 digits, the sign not counted, and
  \<^verbatim>\<open>int(s)\<close> raises it when \<open>s\<close> has more than 4300 digits, leading zeros counted.
  Nothing in the program catches the exception.
\<close>

datatype error = ValueError

definition max_str_digits :: nat where
  "max_str_digits = 4300"

definition printable :: "int \<Rightarrow> bool" where
  "printable n = (length (str_nat (nat \<bar>n\<bar>)) \<le> max_str_digits)"

definition py_str :: "int \<Rightarrow> error + string" where
  "py_str n = (if printable n then Inr (str_int n) else Inl ValueError)"

definition py_int :: "string \<Rightarrow> error + int" where
  "py_int ds = (if length ds \<le> max_str_digits then Inr (int_of_digits ds) else Inl ValueError)"

section \<open>The regular expressions of the program\<close>

text \<open>
  \<^verbatim>\<open>re.sub(r'\s+', ' ', s)\<close>: every maximal run of whitespace becomes one space.
\<close>

function collapse_ws :: "string \<Rightarrow> string" where
  "collapse_ws [] = []"
| "collapse_ws (c # cs) =
     (if is_space c then CHR '' '' # collapse_ws (dropWhile is_space cs)
      else c # collapse_ws cs)"
  by pat_completeness auto
termination
  by (relation "measure length") (auto simp: less_Suc_eq_le length_dropWhile_le)

text \<open>
  \<^verbatim>\<open>re.match(r'\s*N\d+', s)\<close>: after the leading whitespace (the greedy \<^verbatim>\<open>\s*\<close>
  never has to give a character back, \<^verbatim>\<open>N\<close> not being whitespace) come \<^verbatim>\<open>N\<close> and
  at least one digit. The group of \<^verbatim>\<open>re.match(r'\s*N(\d+)', s)\<close> is the maximal run
  of digits after the \<^verbatim>\<open>N\<close>.
\<close>

definition has_block_number :: "string \<Rightarrow> bool" where
  "has_block_number s =
     (case dropWhile is_space s of
        c # d # _ \<Rightarrow> c = CHR ''N'' \<and> is_digit d
      | _ \<Rightarrow> False)"

definition block_number_group :: "string \<Rightarrow> string option" where
  "block_number_group s =
     (if has_block_number s then Some (takeWhile is_digit (tl (dropWhile is_space s)))
      else None)"

text \<open>
  \<^verbatim>\<open>re.search(rf'\b{code}\b', s)\<close> for a token \<open>code\<close> that starts and ends with a
  word character: the token occurs at some position, with no word character right before
  it and none right after it. \<open>prev\<close> is the character before the position looked at
  (\<open>None\<close> at the start of the string).
\<close>

definition boundary_before :: "char option \<Rightarrow> bool" where
  "boundary_before prev = (case prev of None \<Rightarrow> True | Some p \<Rightarrow> \<not> is_word p)"

definition boundary_after :: "string \<Rightarrow> bool" where
  "boundary_after rest = (case rest of [] \<Rightarrow> True | c # _ \<Rightarrow> \<not> is_word c)"

definition token_at :: "string \<Rightarrow> char option \<Rightarrow> string \<Rightarrow> bool" where
  "token_at code prev s =
     (boundary_before prev \<and> take (length code) s = code
      \<and> boundary_after (drop (length code) s))"

fun search_token_from :: "string \<Rightarrow> char option \<Rightarrow> string \<Rightarrow> bool" where
  "search_token_from code prev [] = token_at code prev []"
| "search_token_from code prev (c # cs) =
     (token_at code prev (c # cs) \<or> search_token_from code (Some c) cs)"

definition search_token :: "string \<Rightarrow> string \<Rightarrow> bool" where
  "search_token code s = search_token_from code None s"

text \<open>
  \<^verbatim>\<open>re.search(r'\bM0?2\b', s)\<close>: at a position the pattern matches \<^verbatim>\<open>M02\<close> or
  \<^verbatim>\<open>M2\<close> as a whole word.
\<close>

fun search_M02_from :: "char option \<Rightarrow> string \<Rightarrow> bool" where
  "search_M02_from prev [] = False"
| "search_M02_from prev (c # cs) =
     (token_at ''M02'' prev (c # cs) \<or> token_at ''M2'' prev (c # cs)
      \<or> search_M02_from (Some c) cs)"

definition search_M02 :: "string \<Rightarrow> bool" where
  "search_M02 s = search_M02_from None s"

text \<open>
  \<^verbatim>\<open>re.search(r'%.*\S', s)\<close>: a percent sign and, later in the same stretch without
  a newline (the dot matches everything but LF), a character that is not whitespace.
\<close>

fun search_percent_content :: "string \<Rightarrow> bool" where
  "search_percent_content [] = False"
| "search_percent_content (c # cs) =
     ((c = CHR ''%'' \<and> list_ex (\<lambda>x. \<not> is_space x) (takeWhile (\<lambda>x. x \<noteq> LF) cs))
      \<or> search_percent_content cs)"

text \<open>
  \<^verbatim>\<open>re.findall(r'[XYZIJF][\-\+]?\d+\.(\d+)', text)\<close>. At one position: an axis or
  feed letter, an optional sign, the maximal run of digits (at least one), a dot, the
  maximal run of digits (at least one), which is the group. Giving back a digit or the
  sign never helps, the next pattern item being a dot or a digit. The scan goes on
  behind a match, and one character further where there is none.
\<close>

definition is_axis_letter :: "char \<Rightarrow> bool" where
  "is_axis_letter c = (c \<in> set ''XYZIJF'')"

definition skip_sign :: "string \<Rightarrow> string" where
  "skip_sign r =
     (case r of
        [] \<Rightarrow> r
      | x # r' \<Rightarrow> if x = CHR ''-'' \<or> x = CHR ''+'' then r' else r)"

definition match_decimal_at :: "string \<Rightarrow> (string \<times> string) option" where
  "match_decimal_at s =
     (case s of
        [] \<Rightarrow> None
      | c # r \<Rightarrow>
          if is_axis_letter c then
            (let r1 = skip_sign r;
                 ds = takeWhile is_digit r1;
                 r2 = dropWhile is_digit r1
             in if ds = [] then None
                else (case r2 of
                        [] \<Rightarrow> None
                      | p # r3 \<Rightarrow>
                          if p = CHR ''.'' \<and> takeWhile is_digit r3 \<noteq> []
                          then Some (takeWhile is_digit r3, dropWhile is_digit r3)
                          else None))
          else None)"

lemma length_skip_sign: "length (skip_sign r) \<le> length r"
  by (simp add: skip_sign_def split: list.splits)

lemma match_decimal_at_shorter:
  assumes "match_decimal_at s = Some (g, rest)"
  shows "length rest < length s"
proof -
  from assms obtain c r p r3 where s: "s = c # r"
    and r2: "dropWhile is_digit (skip_sign r) = p # r3"
    and rest: "rest = dropWhile is_digit r3"
    by (auto simp: match_decimal_at_def Let_def split: list.splits if_splits)
  have "length rest \<le> length r3"
    unfolding rest by (rule length_dropWhile_le)
  moreover have "length (p # r3) \<le> length (skip_sign r)"
    unfolding r2 [symmetric] by (rule length_dropWhile_le)
  moreover have "length (skip_sign r) \<le> length r"
    by (rule length_skip_sign)
  ultimately show ?thesis
    using s by simp
qed

function findall_decimals :: "string \<Rightarrow> string list" where
  "findall_decimals [] = []"
| "findall_decimals (c # cs) =
     (case match_decimal_at (c # cs) of
        Some (g, rest) \<Rightarrow> g # findall_decimals rest
      | None \<Rightarrow> findall_decimals cs)"
  by pat_completeness auto
termination
  by (relation "measure length") (auto dest: match_decimal_at_shorter)

section \<open>Encoding and line-ending inspection\<close>

text \<open>
  \<^verbatim>\<open>data.count(b"\r\n")\<close>, \<^verbatim>\<open>data.count(b"\n")\<close> and \<^verbatim>\<open>data.count(b"\r")\<close>:
  the occurrences that do not overlap, counted from the left.
\<close>

fun count_crlf :: "byte list \<Rightarrow> int" where
  "count_crlf (c # d # rest) =
     (if c = 0x0D \<and> d = 0x0A then 1 + count_crlf rest else count_crlf (d # rest))"
| "count_crlf _ = 0"

definition count_byte :: "byte \<Rightarrow> byte list \<Rightarrow> int" where
  "count_byte b data = int (length (filter (\<lambda>x. x = b) data))"

definition detect_eol_stats :: "byte list \<Rightarrow> int \<times> int \<times> int" where
  "detect_eol_stats data =
     (let crlf = count_crlf data;
          lf_total = count_byte 0x0A data;
          lf = lf_total - crlf;
          cr = count_byte 0x0D data - crlf
      in (crlf, lf, cr))"

text \<open>An integer is true in a condition when it is not zero.\<close>

definition detect_line_endings_label :: "byte list \<Rightarrow> string" where
  "detect_line_endings_label data =
     (case detect_eol_stats data of
        (crlf, lf, cr) \<Rightarrow>
          if crlf \<noteq> 0 \<and> \<not> lf \<noteq> 0 \<and> \<not> cr \<noteq> 0 then ''CRLF''
          else if lf \<noteq> 0 \<and> \<not> crlf \<noteq> 0 \<and> \<not> cr \<noteq> 0 then ''LF''
          else if cr \<noteq> 0 \<and> \<not> crlf \<noteq> 0 \<and> \<not> lf \<noteq> 0 then ''CR''
          else if crlf \<noteq> 0 \<or> lf \<noteq> 0 \<or> cr \<noteq> 0 then ''MIXED''
          else ''NONE'')"

text \<open>
  \<^verbatim>\<open>analyze_file\<close> derives the label of its report once more, with its own chain of
  conditions.
\<close>

definition analyze_file_eol_label :: "byte list \<Rightarrow> string" where
  "analyze_file_eol_label data =
     (case detect_eol_stats data of
        (crlf, lf, cr) \<Rightarrow>
          if crlf \<noteq> 0 \<and> \<not> lf \<noteq> 0 \<and> \<not> cr \<noteq> 0 then ''CRLF''
          else if lf \<noteq> 0 \<and> \<not> crlf \<noteq> 0 \<and> \<not> cr \<noteq> 0 then ''LF''
          else if cr \<noteq> 0 \<and> \<not> crlf \<noteq> 0 \<and> \<not> lf \<noteq> 0 then ''CR''
          else if \<not> (crlf \<noteq> 0 \<or> lf \<noteq> 0 \<or> cr \<noteq> 0) then ''NONE''
          else ''MIXED'')"

text \<open>
  The label as the specification derives it from the three counts: the number of styles
  with a count that is not zero decides.
\<close>

definition nonzero_styles :: "int \<times> int \<times> int \<Rightarrow> nat" where
  "nonzero_styles st =
     (case st of (crlf, lf, cr) \<Rightarrow>
        (if crlf \<noteq> 0 then 1 else 0) + (if lf \<noteq> 0 then 1 else 0) + (if cr \<noteq> 0 then 1 else 0))"

definition spec_label :: "int \<times> int \<times> int \<Rightarrow> string" where
  "spec_label st =
     (case st of (crlf, lf, cr) \<Rightarrow>
        if 1 < nonzero_styles st then ''MIXED''
        else if nonzero_styles st = 0 then ''NONE''
        else if crlf \<noteq> 0 then ''CRLF''
        else if lf \<noteq> 0 then ''LF''
        else ''CR'')"

text \<open>
  \<^verbatim>\<open>safe_decode\<close>: the text decoded from the bytes is a list of code points, since
  it can hold U+FFFD. \<^verbatim>\<open>data.decode("ascii")\<close> raises \<^verbatim>\<open>UnicodeDecodeError\<close>
  (\<open>None\<close>) on a byte above 127; the handler decodes again with
  \<^verbatim>\<open>errors="replace"\<close>, which puts U+FFFD in the place of every such byte.
\<close>

type_synonym codepoint = nat

definition decode_ascii_strict :: "byte list \<Rightarrow> codepoint list option" where
  "decode_ascii_strict data =
     (if list_all (\<lambda>b. b \<le> 127) data then Some (map unat data) else None)"

definition decode_ascii_replace :: "byte list \<Rightarrow> codepoint list" where
  "decode_ascii_replace data = map (\<lambda>b. if b \<le> 127 then unat b else 0xFFFD) data"

definition safe_decode :: "byte list \<Rightarrow> codepoint list" where
  "safe_decode data =
     (case decode_ascii_strict data of
        Some text \<Rightarrow> text
      | None \<Rightarrow> decode_ascii_replace data)"

text \<open>
  The positions of the bytes above 127 that \<^verbatim>\<open>analyze_file\<close> collects, their number
  and the sample \<^verbatim>\<open>non_ascii_positions[:10]\<close> of its report.
\<close>

definition non_ascii_positions :: "byte list \<Rightarrow> nat list" where
  "non_ascii_positions data =
     map fst (filter (\<lambda>(i, b). 127 < b) (enumerate 0 data))"

definition non_ascii_count :: "byte list \<Rightarrow> nat" where
  "non_ascii_count data = length (non_ascii_positions data)"

definition non_ascii_sample :: "byte list \<Rightarrow> nat list" where
  "non_ascii_sample data = take 10 (non_ascii_positions data)"

text \<open>
  The decoding of the specification, for comparison: every byte is its own code point
  (a single-byte charset), so that the bytes can be read back from the text.
\<close>

definition spec_decode :: "byte list \<Rightarrow> codepoint list" where
  "spec_decode data = map unat data"

section \<open>The line analyzer\<close>

text \<open>
  \<^verbatim>\<open>analyze_text_lines\<close> on lines whose code points are below 256. The lines that
  \<^verbatim>\<open>analyze_file\<close> hands to it hold ASCII code points and, in the place of the bytes
  above 127, U+FFFD, which none of the patterns names and which is neither whitespace,
  nor a digit, nor a word character; such lines are outside this model.
\<close>

record report =
  total_lines :: nat
  starts_with_percent :: bool
  ends_with_M02 :: bool
  has_block_numbers :: bool
  block_numbers_monotonic :: bool
  max_line_length :: nat
  has_semicolon_comments :: bool
  stray_percent_positions :: "nat list"
  stop_codes :: "(string \<times> nat list) list"
  precision_max_places :: nat
  precision_over_4_count :: nat
  suspect_lines :: "(nat \<times> string) list"

text \<open>
  The dictionary \<^verbatim>\<open>stop_codes\<close> is the list of its items in insertion order; the
  loop inserts each key at most once.
\<close>

definition stop_code_tokens :: "string list" where
  "stop_code_tokens = [''M0'', ''M00'', ''M1'', ''M01'', ''M2'', ''M02'', ''M30'']"

definition token_positions :: "string \<Rightarrow> string list \<Rightarrow> nat list" where
  "token_positions code lines =
     map (\<lambda>(i, ln). i + 1) (filter (\<lambda>(i, ln). search_token code ln) (enumerate 0 lines))"

fun stop_code_loop :: "string list \<Rightarrow> string list \<Rightarrow> (string \<times> nat list) list
    \<Rightarrow> (string \<times> nat list) list" where
  "stop_code_loop [] lines acc = acc"
| "stop_code_loop (code # codes) lines acc =
     (let pos = token_positions code lines
      in stop_code_loop codes lines (if pos \<noteq> [] then acc @ [(code, pos)] else acc))"

text \<open>
  The monotonicity loop: \<open>last_n\<close> starts at \<open>-1\<close>; the first block number that is
  not above it ends the loop with the flag false, and the lines after it are not looked
  at. The conversion \<^verbatim>\<open>int(m.group(1))\<close> of a block number can raise.
\<close>

fun monotonic_loop :: "int \<Rightarrow> string list \<Rightarrow> error + bool" where
  "monotonic_loop last_n [] = Inr True"
| "monotonic_loop last_n (ln # rest) =
     (case block_number_group ln of
        Some g \<Rightarrow>
          (case py_int g of
             Inl e \<Rightarrow> Inl e
           | Inr n \<Rightarrow> if n \<le> last_n then Inr False else monotonic_loop n rest)
      | None \<Rightarrow> monotonic_loop last_n rest)"

definition suspects_of_line :: "nat \<Rightarrow> nat \<Rightarrow> string \<Rightarrow> (nat \<times> string) list" where
  "suspects_of_line len i ln =
     (if 120 < length ln then [(i, ''line too long'')] else [])
     @ (if CHR 0x09 \<in> set ln then [(i, ''tab character'')] else [])
     @ (if search_percent_content ln \<and> strip ln \<noteq> ''%'' then [(i, ''content after %'')] else [])
     @ (if search_M02 ln \<and> i \<noteq> len then [(i, ''M02 not at end'')] else [])"

text \<open>
  The report, or the exception of the monotonicity loop: the other parts of the function
  raise nothing.
\<close>

definition analyze_text_lines :: "string list \<Rightarrow> error + report" where
  "analyze_text_lines lines =
     (let decs = findall_decimals (join [LF] lines)
      in case monotonic_loop (- 1) lines of
           Inl e \<Rightarrow> Inl e
         | Inr monotonic \<Rightarrow>
             Inr \<lparr> total_lines = length lines,
                   starts_with_percent = (if lines \<noteq> [] then strip (hd lines) = ''%'' else False),
                   ends_with_M02 = (lines \<noteq> [] \<and> search_M02 (last lines)),
                   has_block_numbers = list_ex has_block_number lines,
                   block_numbers_monotonic = monotonic,
                   max_line_length = foldr max (map length lines) 0,
                   has_semicolon_comments = list_ex (\<lambda>ln. CHR '';'' \<in> set ln) lines,
                   stray_percent_positions =
                     map (\<lambda>(i, ln). i + 1)
                       (filter (\<lambda>(i, ln). strip ln = ''%'') (enumerate 2 (butlast (tl lines)))),
                   stop_codes = stop_code_loop stop_code_tokens lines [],
                   precision_max_places =
                     (if decs \<noteq> [] then foldr max (map length decs) 0 else 0),
                   precision_over_4_count =
                     (if decs \<noteq> [] then length (filter (\<lambda>d. 4 < length d) decs) else 0),
                   suspect_lines =
                     concat (map (\<lambda>(i, ln). suspects_of_line (length lines) i ln)
                       (enumerate 1 lines)) \<rparr>)"

section \<open>The normalizer\<close>

record config =
  start_n :: int
  step :: int
  add_percent :: bool
  ensure_M02 :: bool
  crlf :: bool
  strip_semicolon :: bool

definition default_config :: config where
  "default_config =
     \<lparr> start_n = 10, step = 10, add_percent = True, ensure_M02 = True, crlf = True,
       strip_semicolon = True \<rparr>"

text \<open>
  The header: with \<^verbatim>\<open>add_percent\<close> the output starts with a percent line, and a first
  source line that is a percent line is dropped from the source.
\<close>

definition header :: "config \<Rightarrow> string list \<Rightarrow> string list \<times> string list" where
  "header cfg src_lines =
     (if add_percent cfg then
        (if src_lines = [] \<or> strip (hd src_lines) \<noteq> ''%'' then ([''%''], src_lines)
         else ([''%''], tl src_lines))
      else ([], src_lines))"

text \<open>
  What is left of a source line before it is numbered: \<open>None\<close> where the loop goes on
  with the next line (\<^verbatim>\<open>continue\<close>).
\<close>

definition clean_line :: "config \<Rightarrow> string \<Rightarrow> string option" where
  "clean_line cfg ln =
     (let s = strip ln
      in if s = [] then None
         else if strip_semicolon cfg \<and> CHR '';'' \<in> set s then
           (let s' = rstrip (takeWhile (\<lambda>c. c \<noteq> CHR '';'') s)
            in if s' = [] then None else Some s')
         else Some s)"

text \<open>
  The f-string \<^verbatim>\<open>f"N{n} {s}"\<close>: the text \<open>numbered n s\<close>, unless the number is
  too long to be written.
\<close>

definition numbered :: "int \<Rightarrow> string \<Rightarrow> string" where
  "numbered n s = ''N'' @ str_int n @ '' '' @ s"

definition numbered_line :: "int \<Rightarrow> string \<Rightarrow> error + string" where
  "numbered_line n s =
     (case py_str n of
        Inl e \<Rightarrow> Inl e
      | Inr digits \<Rightarrow> Inr (''N'' @ digits @ '' '' @ s))"

text \<open>
  One turn of the loop over the source lines, on the state \<open>(out_lines, n)\<close>: a line
  with a block number is kept, any other line gets the number \<open>n\<close>, and \<open>n\<close> moves
  on by \<open>step\<close>. An exception ends the loop and the run.
\<close>

definition normalize_step :: "config \<Rightarrow> string list \<times> int \<Rightarrow> string
    \<Rightarrow> error + string list \<times> int" where
  "normalize_step cfg st ln =
     (case st of (out_lines, n) \<Rightarrow>
        (case clean_line cfg ln of
           None \<Rightarrow> Inr (out_lines, n)
         | Some s \<Rightarrow>
             if has_block_number s then Inr (out_lines @ [s], n)
             else (case numbered_line n (collapse_ws s) of
                     Inl e \<Rightarrow> Inl e
                   | Inr l \<Rightarrow> Inr (out_lines @ [l], n + step cfg))))"

fun normalize_run :: "config \<Rightarrow> string list \<times> int \<Rightarrow> string list
    \<Rightarrow> error + string list \<times> int" where
  "normalize_run cfg st [] = Inr st"
| "normalize_run cfg st (ln # rest) =
     (case normalize_step cfg st ln of
        Inl e \<Rightarrow> Inl e
      | Inr st' \<Rightarrow> normalize_run cfg st' rest)"

definition normalize_loop :: "config \<Rightarrow> string list \<Rightarrow> error + string list \<times> int" where
  "normalize_loop cfg src_lines =
     (case header cfg src_lines of
        (out0, src) \<Rightarrow> normalize_run cfg (out0, start_n cfg) src)"

text \<open>
  The lines of the output: with \<^verbatim>\<open>ensure_M02\<close> every line with a stop code is
  dropped and one stop line with the number \<open>n\<close> is added.
\<close>

definition normalize_lines :: "config \<Rightarrow> string list \<Rightarrow> error + string list" where
  "normalize_lines cfg src_lines =
     (case normalize_loop cfg src_lines of
        Inl e \<Rightarrow> Inl e
      | Inr (out_lines, n) \<Rightarrow>
          if ensure_M02 cfg
          then (case numbered_line n ''M02'' of
                  Inl e \<Rightarrow> Inl e
                | Inr stop \<Rightarrow> Inr (filter (\<lambda>l. \<not> search_M02 l) out_lines @ [stop]))
          else Inr out_lines)"

definition eol :: "config \<Rightarrow> string" where
  "eol cfg = (if crlf cfg then [CR, LF] else [LF])"

definition serialize :: "config \<Rightarrow> string list \<Rightarrow> string" where
  "serialize cfg out_lines = join (eol cfg) out_lines @ eol cfg"

text \<open>
  \<^verbatim>\<open>normalize_to_iso\<close> from the bytes of the input file to the bytes it writes; a
  run that raises writes nothing. Latin-1 maps every byte to the code point of the same value and back.
  \<^verbatim>\<open>read_text\<close> opens the file in text mode, where CR LF and a lone CR are read
  as LF; \<^verbatim>\<open>write_bytes\<close> writes the bytes as they are.
\<close>

definition decode_latin1 :: "byte list \<Rightarrow> string" where
  "decode_latin1 data = map (\<lambda>b. char_of (unat b)) data"

definition encode_latin1 :: "string \<Rightarrow> byte list" where
  "encode_latin1 text = map (\<lambda>c. of_nat (cp c)) text"

fun universal_newlines :: "string \<Rightarrow> string" where
  "universal_newlines [] = []"
| "universal_newlines [c] = (if c = CR then [LF] else [c])"
| "universal_newlines (c # d # rest) =
     (if c = CR \<and> d = LF then LF # universal_newlines rest
      else if c = CR then LF # universal_newlines (d # rest)
      else c # universal_newlines (d # rest))"

definition read_text_latin1 :: "byte list \<Rightarrow> string" where
  "read_text_latin1 data = universal_newlines (decode_latin1 data)"

definition normalize_to_iso :: "config \<Rightarrow> byte list \<Rightarrow> error + byte list" where
  "normalize_to_iso cfg data =
     (case normalize_lines cfg (splitlines (read_text_latin1 data)) of
        Inl e \<Rightarrow> Inl e
      | Inr out_lines \<Rightarrow> Inr (encode_latin1 (serialize cfg out_lines)))"

text \<open>
  The same run with a note on every emitted line: \<open>Some k\<close> on a line that received
  the number \<open>k\<close> from the counter, \<open>None\<close> on a line that was kept with its own
  number. The notes are not part of the program; they name the numbers it assigns.
\<close>

definition traced_step :: "config \<Rightarrow> (string \<times> int option) list \<times> int \<Rightarrow> string
    \<Rightarrow> error + (string \<times> int option) list \<times> int" where
  "traced_step cfg st ln =
     (case st of (out_lines, n) \<Rightarrow>
        (case clean_line cfg ln of
           None \<Rightarrow> Inr (out_lines, n)
         | Some s \<Rightarrow>
             if has_block_number s then Inr (out_lines @ [(s, None)], n)
             else (case numbered_line n (collapse_ws s) of
                     Inl e \<Rightarrow> Inl e
                   | Inr l \<Rightarrow> Inr (out_lines @ [(l, Some n)], n + step cfg))))"

fun traced_run :: "config \<Rightarrow> (string \<times> int option) list \<times> int \<Rightarrow> string list
    \<Rightarrow> error + (string \<times> int option) list \<times> int" where
  "traced_run cfg st [] = Inr st"
| "traced_run cfg st (ln # rest) =
     (case traced_step cfg st ln of
        Inl e \<Rightarrow> Inl e
      | Inr st' \<Rightarrow> traced_run cfg st' rest)"

definition traced_loop :: "config \<Rightarrow> string list
    \<Rightarrow> error + (string \<times> int option) list \<times> int" where
  "traced_loop cfg src_lines =
     (case header cfg src_lines of
        (out0, src) \<Rightarrow> traced_run cfg (map (\<lambda>l. (l, None)) out0, start_n cfg) src)"

definition traced_lines :: "config \<Rightarrow> string list \<Rightarrow> error + (string \<times> int option) list" where
  "traced_lines cfg src_lines =
     (case traced_loop cfg src_lines of
        Inl e \<Rightarrow> Inl e
      | Inr (out_lines, n) \<Rightarrow>
          if ensure_M02 cfg
          then (case numbered_line n ''M02'' of
                  Inl e \<Rightarrow> Inl e
                | Inr stop \<Rightarrow>
                    Inr (filter (\<lambda>(l, a). \<not> search_M02 l) out_lines @ [(stop, Some n)]))
          else Inr out_lines)"

definition assigned_numbers :: "(string \<times> int option) list \<Rightarrow> int list" where
  "assigned_numbers ts = concat (map (\<lambda>(l, a). case a of None \<Rightarrow> [] | Some k \<Rightarrow> [k]) ts)"

section \<open>The comparator\<close>

record policy =
  skip_header_percent :: bool
  skip_trailing_m02 :: bool

datatype diff = NoDiff | Diff nat string string

definition first_diff_line :: "diff \<Rightarrow> nat option" where
  "first_diff_line d = (case d of NoDiff \<Rightarrow> None | Diff i a b \<Rightarrow> Some i)"

definition trim :: "policy \<Rightarrow> string list \<Rightarrow> string list" where
  "trim pol lines =
     (let lines1 = (if skip_header_percent pol \<and> lines \<noteq> [] \<and> strip (hd lines) = ''%''
                    then tl lines else lines)
      in if skip_trailing_m02 pol \<and> lines1 \<noteq> [] \<and> search_M02 (last lines1)
         then butlast lines1 else lines1)"

definition line_or_eof :: "string list \<Rightarrow> nat \<Rightarrow> string" where
  "line_or_eof ls i = (if i < length ls then strip (ls ! i) else ''<EOF>'')"

text \<open>The loop \<^verbatim>\<open>for i in range(max_len)\<close>, on the indices still to visit.\<close>

fun compare_loop :: "string list \<Rightarrow> string list \<Rightarrow> nat list \<Rightarrow> diff" where
  "compare_loop la lb [] = NoDiff"
| "compare_loop la lb (i # is) =
     (let a_ln = line_or_eof la i;
          b_ln = line_or_eof lb i
      in if collapse_ws a_ln \<noteq> collapse_ws b_ln then Diff (i + 1) a_ln b_ln
         else compare_loop la lb is)"

definition compare_lines :: "policy \<Rightarrow> string list \<Rightarrow> string list \<Rightarrow> diff" where
  "compare_lines pol a b =
     (let la = trim pol a;
          lb = trim pol b;
          max_len = max (length la) (length lb)
      in compare_loop la lb [0..<max_len])"

definition compare_files :: "policy \<Rightarrow> byte list \<Rightarrow> byte list \<Rightarrow> diff" where
  "compare_files pol a b =
     compare_lines pol (splitlines (read_text_latin1 a)) (splitlines (read_text_latin1 b))"






text \<open>
  The run in closed form. Read from the front of the source, the loop that starts with
  the counter \<open>n\<close> appends the traced lines \<open>emitted\<close> and ends with the counter
  \<open>counter\<close>, if it writes every number; \<open>pure_traced_loop\<close>, \<open>pure_loop\<close>,
  \<open>pure_traced_lines\<close> and \<open>pure_lines\<close> are then the results of the loop and of
  the run, and \<open>numbers_written\<close> are the numbers that the run has to write. The
  lemmas \<open>traced_lines_eq\<close> and \<open>normalize_lines_eq\<close> below show that the program
  returns these results when every one of these numbers can be written, and raises
  otherwise.
\<close>

fun emitted :: "config \<Rightarrow> int \<Rightarrow> string list \<Rightarrow> (string \<times> int option) list" where
  "emitted cfg n [] = []"
| "emitted cfg n (ln # rest) =
     (case clean_line cfg ln of
        None \<Rightarrow> emitted cfg n rest
      | Some s \<Rightarrow>
          if has_block_number s then (s, None) # emitted cfg n rest
          else (numbered n (collapse_ws s), Some n) # emitted cfg (n + step cfg) rest)"

fun counter :: "config \<Rightarrow> int \<Rightarrow> string list \<Rightarrow> int" where
  "counter cfg n [] = n"
| "counter cfg n (ln # rest) =
     (case clean_line cfg ln of
        None \<Rightarrow> counter cfg n rest
      | Some s \<Rightarrow>
          if has_block_number s then counter cfg n rest
          else counter cfg (n + step cfg) rest)"

definition pure_traced_loop :: "config \<Rightarrow> string list \<Rightarrow> (string \<times> int option) list \<times> int" where
  "pure_traced_loop cfg src_lines =
     (case header cfg src_lines of
        (out0, src) \<Rightarrow>
          (map (\<lambda>l. (l, None)) out0 @ emitted cfg (start_n cfg) src,
           counter cfg (start_n cfg) src))"

definition pure_loop :: "config \<Rightarrow> string list \<Rightarrow> string list \<times> int" where
  "pure_loop cfg src_lines =
     (case pure_traced_loop cfg src_lines of (ts, n) \<Rightarrow> (map fst ts, n))"

definition pure_traced_lines :: "config \<Rightarrow> string list \<Rightarrow> (string \<times> int option) list" where
  "pure_traced_lines cfg src_lines =
     (case pure_traced_loop cfg src_lines of
        (out_lines, n) \<Rightarrow>
          if ensure_M02 cfg
          then filter (\<lambda>(l, a). \<not> search_M02 l) out_lines @ [(numbered n ''M02'', Some n)]
          else out_lines)"

definition pure_lines :: "config \<Rightarrow> string list \<Rightarrow> string list" where
  "pure_lines cfg src_lines =
     (case pure_loop cfg src_lines of
        (out_lines, n) \<Rightarrow>
          if ensure_M02 cfg
          then filter (\<lambda>l. \<not> search_M02 l) out_lines @ [numbered n ''M02'']
          else out_lines)"

definition numbers_written :: "config \<Rightarrow> string list \<Rightarrow> int list" where
  "numbers_written cfg src_lines =
     (case pure_traced_loop cfg src_lines of
        (ts, n) \<Rightarrow> assigned_numbers ts @ (if ensure_M02 cfg then [n] else []))"

text \<open>
  Two numbers are a positive number of increments \<open>d\<close> apart.
\<close>

definition step_apart :: "int \<Rightarrow> int \<Rightarrow> int \<Rightarrow> bool" where
  "step_apart d a b =
     (if d = 0 then b = a else (b - a) mod d = 0 \<and> 0 < (b - a) div d)"

text \<open>
  A text is stripped when it is not empty and neither starts nor ends with whitespace;
  a line is settled under a configuration when the loop of the normalizer keeps it as it
  is: it is stripped, it has a block number, and it has no semicolon where comments are
  cut off.
\<close>

definition stripped :: "string \<Rightarrow> bool" where
  "stripped s = (s \<noteq> [] \<and> \<not> is_space (hd s) \<and> \<not> is_space (last s))"

definition settled :: "config \<Rightarrow> string \<Rightarrow> bool" where
  "settled cfg l =
     (stripped l \<and> has_block_number l \<and> \<not> (strip_semicolon cfg \<and> CHR '';'' \<in> set l))"

section \<open>Line-ending label\<close>

text \<open>
  Claim C7. For every byte buffer the label is one of CRLF, LF, CR, MIXED and NONE, and
  it is a function of the three counts alone: MIXED when more than one count is not zero,
  NONE when all three are zero, and otherwise the one style whose count is not zero. The
  three conditions are the cases 2 or 3, 0 and 1 of the number of styles present, so
  exactly one of them holds. The chain of conditions inside \<^verbatim>\<open>analyze_file\<close> gives
  the same label.
\<close>

theorem label_exclusive:
  "detect_line_endings_label data = spec_label (detect_eol_stats data)
   \<and> analyze_file_eol_label data = spec_label (detect_eol_stats data)
   \<and> detect_line_endings_label data \<in> set [''CRLF'', ''LF'', ''CR'', ''MIXED'', ''NONE'']
   \<and> (detect_line_endings_label data = ''MIXED'') = (1 < nonzero_styles (detect_eol_stats data))
   \<and> (detect_line_endings_label data = ''NONE'') = (nonzero_styles (detect_eol_stats data) = 0)
   \<and> (detect_line_endings_label data \<in> set [''CRLF'', ''LF'', ''CR''])
       = (nonzero_styles (detect_eol_stats data) = 1)"
proof -
  obtain a b c where st: "detect_eol_stats data = (a, b, c)"
    by (cases "detect_eol_stats data")
  show ?thesis
    by (simp add: detect_line_endings_label_def analyze_file_eol_label_def spec_label_def
        nonzero_styles_def st)
qed

theorem label_exclusive_witness:
  "detect_line_endings_label [0x41, 0x0D, 0x0A, 0x42, 0x0A] = ''MIXED''
   \<and> detect_eol_stats [0x41, 0x0D, 0x0A, 0x42, 0x0A] = (1, 1, 0)"
  using label_exclusive [of "[0x41, 0x0D, 0x0A, 0x42, 0x0A]"]
  by (simp add: detect_eol_stats_def count_byte_def spec_label_def nonzero_styles_def)

section \<open>Decoding in the analysis path\<close>

lemma non_ascii_positions_eq:
  "map fst (filter (\<lambda>(i, b). 127 < b) (enumerate n (data :: byte list)))
     = filter (\<lambda>i. 127 < data ! (i - n)) [n..<n + length data]"
proof (induction data arbitrary: n)
  case Nil
  then show ?case by simp
next
  case (Cons b data)
  have u: "[n..<n + length (b # data)] = n # [Suc n..<Suc n + length data]"
    by (subst upt_rec) simp
  have f: "filter (\<lambda>i. 127 < (b # data) ! (i - n)) [Suc n..<Suc n + length data]
        = filter (\<lambda>i. 127 < data ! (i - Suc n)) [Suc n..<Suc n + length data]"
  proof (rule filter_cong [OF refl])
    fix i assume "i \<in> set [Suc n..<Suc n + length data]"
    then have "i - n = Suc (i - Suc n)" by auto
    then show "(127 < (b # data) ! (i - n)) = (127 < data ! (i - Suc n))" by simp
  qed
  show ?case
    unfolding u using Cons.IH [of "Suc n"] f by simp
qed

lemma non_ascii_count_eq:
  "length (filter (\<lambda>(i, b). 127 < b) (enumerate n (data :: byte list)))
     = length (filter (\<lambda>b. 127 < b) data)"
  by (induction data arbitrary: n) simp_all

text \<open>
  Claim C3, as stated, fails: the analysis path decodes as ASCII and replaces. The byte
  0xE9 does not become the code point 0xE9 but U+FFFD, and two different bytes above 127
  decode to the same text, so the bytes cannot be read back from it.
\<close>

theorem safe_decode_replaces:
  "safe_decode [0x41, 0xE9] = [0x41, 0xFFFD] \<and> safe_decode [0x41, 0xE9] \<noteq> spec_decode [0x41, 0xE9]
   \<and> safe_decode [0x80] = safe_decode [0x81]"
  by (simp add: safe_decode_def decode_ascii_strict_def decode_ascii_replace_def spec_decode_def)

text \<open>
  Claim C3, amended. Decoding never fails: where the strict ASCII decoding raises, the
  handler returns the text decoded with replacement. The text has one code point for
  every byte: the byte itself where it is at most 127, U+FFFD in the place of every byte
  above 127. A buffer without such bytes decodes to itself. The bytes above 127 are
  counted, and the sample holds the first ten of their positions in increasing order.
\<close>

theorem safe_decode_total:
  "safe_decode data = map (\<lambda>b. if b \<le> 127 then unat b else 0xFFFD) data
   \<and> length (safe_decode data) = length data
   \<and> (list_all (\<lambda>b. b \<le> 127) data \<longrightarrow> safe_decode data = spec_decode data)
   \<and> non_ascii_positions data = filter (\<lambda>i. 127 < data ! i) [0..<length data]
   \<and> non_ascii_count data = length (filter (\<lambda>b. 127 < b) data)
   \<and> non_ascii_sample data = take 10 (filter (\<lambda>i. 127 < data ! i) [0..<length data])"
proof -
  have pos: "non_ascii_positions data = filter (\<lambda>i. 127 < data ! i) [0..<length data]"
    using non_ascii_positions_eq [of 0 data] by (simp add: non_ascii_positions_def)
  have cnt: "non_ascii_count data = length (filter (\<lambda>b. 127 < b) data)"
    using non_ascii_count_eq [of 0 data]
    by (simp add: non_ascii_count_def non_ascii_positions_def)
  have smp: "non_ascii_sample data = take 10 (filter (\<lambda>i. 127 < data ! i) [0..<length data])"
    using pos by (simp add: non_ascii_sample_def)
  have dec: "safe_decode data = map (\<lambda>b. if b \<le> 127 then unat b else 0xFFFD) data"
    by (auto simp: safe_decode_def decode_ascii_strict_def decode_ascii_replace_def
        list_all_iff)
  have len: "length (safe_decode data) = length data"
    unfolding dec by simp
  have asc: "list_all (\<lambda>b. b \<le> 127) data \<longrightarrow> safe_decode data = spec_decode data"
    by (simp add: safe_decode_def decode_ascii_strict_def spec_decode_def)
  from dec len asc pos cnt smp show ?thesis
    by blast
qed

theorem safe_decode_total_witness:
  "list_all (\<lambda>b. b \<le> 127) [0x41, 0x0A :: byte] \<and> safe_decode [0x41, 0x0A] = [65, 10]
   \<and> non_ascii_count [0x41, 0xE9, 0x0A, 0xFF] = 2
   \<and> non_ascii_sample [0x41, 0xE9, 0x0A, 0xFF] = [1, 3]"
  using safe_decode_total [of "[0x41, 0x0A]"] safe_decode_total [of "[0x41, 0xE9, 0x0A, 0xFF]"]
  by (simp add: spec_decode_def upt_rec)

section \<open>The analyzer on the empty input\<close>

text \<open>
  Claim C9, as stated, fails in one field: on the empty line sequence the flag
  \<^verbatim>\<open>block_numbers_monotonic\<close> is true, not false.
\<close>

theorem analyze_empty_monotonic_flag:
  "\<exists>r. analyze_text_lines [] = Inr r \<and> block_numbers_monotonic r \<noteq> False"
  by (simp add: analyze_text_lines_def)

text \<open>
  Claim C9, amended. On the empty line sequence the report has \<^verbatim>\<open>total_lines\<close> 0,
  every boolean flag false except \<^verbatim>\<open>block_numbers_monotonic\<close>, which is true (no
  line carries a block number), every list and the stop-code dictionary empty, both
  precision statistics 0 and no suspicion record; the function raises nothing.
\<close>

theorem analyze_empty:
  "analyze_text_lines [] =
     Inr \<lparr> total_lines = 0, starts_with_percent = False, ends_with_M02 = False,
       has_block_numbers = False, block_numbers_monotonic = True, max_line_length = 0,
       has_semicolon_comments = False, stray_percent_positions = [], stop_codes = [],
       precision_max_places = 0, precision_over_4_count = 0, suspect_lines = [] \<rparr>"
  by (simp add: analyze_text_lines_def stop_code_tokens_def token_positions_def enumerate_eq_zip)

section \<open>Reflexivity of the comparator\<close>

lemma compare_loop_same: "compare_loop l l is = NoDiff"
  by (induction "is") simp_all


text \<open>
  Claim C8. Comparing a line sequence with itself reports no divergence under every
  policy: \<^verbatim>\<open>first_diff_line\<close> is \<^verbatim>\<open>None\<close>. The same holds for
  \<^verbatim>\<open>compare_files\<close> on one file content given twice.
\<close>

theorem compare_reflexive:
  "first_diff_line (compare_lines pol F F) = None
   \<and> first_diff_line (compare_files pol data data) = None"
  by (simp add: compare_lines_def compare_files_def Let_def compare_loop_same first_diff_line_def)


theorem compare_reflexive_witness:
  "first_diff_line (compare_lines \<lparr>skip_header_percent = True, skip_trailing_m02 = False\<rparr>
      [''%'', ''N10 G01 X1'', ''M02''] [''%'', ''N10 G01 X1'', ''M02'']) = None"
  using compare_reflexive [of "\<lparr>skip_header_percent = True, skip_trailing_m02 = False\<rparr>"
      "[''%'', ''N10 G01 X1'', ''M02'']"]
  by simp

section \<open>The analyzer on the example of the specification\<close>

lemma analyze_fields:
  assumes "analyze_text_lines lines = Inr r"
  shows "starts_with_percent r = (if lines \<noteq> [] then strip (hd lines) = ''%'' else False)"
    and "ends_with_M02 r = (lines \<noteq> [] \<and> search_M02 (last lines))"
    and "monotonic_loop (- 1) lines = Inr (block_numbers_monotonic r)"
    and "stop_codes r = stop_code_loop stop_code_tokens lines []"
    and "precision_max_places r =
           (if findall_decimals (join [LF] lines) \<noteq> []
            then foldr max (map length (findall_decimals (join [LF] lines))) 0 else 0)"
    and "precision_over_4_count r =
           (if findall_decimals (join [LF] lines) \<noteq> []
            then length (filter (\<lambda>d. 4 < length d) (findall_decimals (join [LF] lines))) else 0)"
  using assms by (auto simp: analyze_text_lines_def Let_def split: sum.splits)

lemma analyze_returns:
  "monotonic_loop (- 1) lines = Inr b \<Longrightarrow> \<exists>r. analyze_text_lines lines = Inr r"
  by (simp add: analyze_text_lines_def Let_def)

lemma word_chars:
  "is_word CHR ''M''" "is_word CHR ''N''" "is_word CHR ''G''" "is_word CHR ''X''" "is_word CHR ''Y''"
  "is_word CHR ''0''" "is_word CHR ''1''" "is_word CHR ''2''" "is_word CHR ''3''"
  "is_word CHR ''4''" "is_word CHR ''5''" "is_word CHR ''6''"
  "\<not> is_word CHR '' ''" "\<not> is_word CHR ''%''" "\<not> is_word CHR ''.''"
  by (simp_all add: is_word_def cp_def)

lemma digit_chars:
  "is_digit CHR ''0''" "is_digit CHR ''1''" "is_digit CHR ''2''" "is_digit CHR ''3''"
  "is_digit CHR ''4''" "is_digit CHR ''5''" "is_digit CHR ''6''"
  "\<not> is_digit CHR '' ''" "\<not> is_digit CHR ''%''" "\<not> is_digit CHR ''.''"
  "\<not> is_digit CHR ''M''" "\<not> is_digit CHR ''N''" "\<not> is_digit CHR ''G''"
  "\<not> is_digit CHR ''X''" "\<not> is_digit CHR ''Y''" "\<not> is_digit CHR 0x0A"
  by (simp_all add: is_digit_def cp_def)

lemma example_stop_codes:
  "stop_code_loop stop_code_tokens [''%'', ''N10 G01 X1.23456 Y2.0'', ''M02''] [] = [(''M02'', [3])]"
  by (simp add: stop_code_tokens_def token_positions_def search_token_def token_at_def
      boundary_before_def boundary_after_def word_chars enumerate_eq_zip upt_rec)

lemma example_decimals:
  "findall_decimals (join [LF] [''%'', ''N10 G01 X1.23456 Y2.0'', ''M02'']) = [''23456'', ''0'']"
  by (simp add: match_decimal_at_def is_axis_letter_def skip_sign_def digit_chars LF_def)

lemma example_percent: "strip ''%'' = ''%''"
  by (simp add: strip_def lstrip_def rstrip_def is_space_def cp_def)

lemma example_last: "search_M02 ''M02''"
  by (simp add: search_M02_def token_at_def boundary_before_def boundary_after_def)

lemma example_monotonic:
  "monotonic_loop (- 1) [''%'', ''N10 G01 X1.23456 Y2.0'', ''M02''] = Inr True"
proof -
  have s: "\<not> is_space CHR ''%''" "\<not> is_space CHR ''N''" "\<not> is_space CHR ''M''"
    by (simp_all add: is_space_def cp_def)
  have g: "block_number_group ''%'' = None" "block_number_group ''M02'' = None"
    "block_number_group ''N10 G01 X1.23456 Y2.0'' = Some ''10''"
    by (simp_all add: block_number_group_def has_block_number_def s digit_chars)
  have "int_of_digits ''10'' = 10"
    by (simp add: int_of_digits_def digit_val_def cp_def)
  then have "py_int ''10'' = Inr 10"
    by (simp add: py_int_def max_str_digits_def)
  then show ?thesis
    by (simp add: g)
qed

text \<open>
  Claim C2, as stated, fails in the stop-code dictionary: the pattern built for the
  token \<^verbatim>\<open>M2\<close> is \<^verbatim>\<open>\bM2\b\<close>, and \<^verbatim>\<open>M2\<close> does not occur in the line
  \<^verbatim>\<open>M02\<close>. The dictionary has no key \<^verbatim>\<open>M2\<close>.
\<close>

theorem analyze_example_stop_codes:
  "\<exists>r. analyze_text_lines [''%'', ''N10 G01 X1.23456 Y2.0'', ''M02''] = Inr r
     \<and> stop_codes r \<noteq> [(''M2'', [3]), (''M02'', [3])]
     \<and> map_of (stop_codes r) ''M2'' = None
     \<and> \<not> search_token ''M2'' ''M02''"
proof -
  obtain r where r: "analyze_text_lines [''%'', ''N10 G01 X1.23456 Y2.0'', ''M02''] = Inr r"
    using analyze_returns [OF example_monotonic] by blast
  have "stop_codes r = [(''M02'', [3])]"
    unfolding analyze_fields(4) [OF r] by (rule example_stop_codes)
  then show ?thesis
    using r by (simp add: search_token_def token_at_def)
qed

text \<open>
  Claim C2, amended. For the lines \<^verbatim>\<open>%\<close>, \<^verbatim>\<open>N10 G01 X1.23456 Y2.0\<close> and
  \<^verbatim>\<open>M02\<close> the report has \<^verbatim>\<open>starts_with_percent\<close> and \<^verbatim>\<open>ends_with_M02\<close> true,
  \<^verbatim>\<open>precision_max_places\<close> 5, \<^verbatim>\<open>precision_over_4_count\<close> 1, and the stop-code
  dictionary has the single key \<^verbatim>\<open>M02\<close>, with the positions \<^verbatim>\<open>[3]\<close>; the function
  raises nothing on these lines.
\<close>

theorem analyze_example:
  "\<exists>r. analyze_text_lines [''%'', ''N10 G01 X1.23456 Y2.0'', ''M02''] = Inr r
     \<and> starts_with_percent r = True
     \<and> ends_with_M02 r = True
     \<and> precision_max_places r = 5
     \<and> precision_over_4_count r = 1
     \<and> stop_codes r = [(''M02'', [3])]"
proof -
  obtain r where r: "analyze_text_lines [''%'', ''N10 G01 X1.23456 Y2.0'', ''M02''] = Inr r"
    using analyze_returns [OF example_monotonic] by blast
  have "starts_with_percent r = True" "ends_with_M02 r = True"
    unfolding analyze_fields(1,2) [OF r] by (simp_all add: example_percent example_last)
  moreover have "precision_max_places r = 5" "precision_over_4_count r = 1"
    unfolding analyze_fields(5,6) [OF r] example_decimals by simp_all
  moreover have "stop_codes r = [(''M02'', [3])]"
    unfolding analyze_fields(4) [OF r] by (rule example_stop_codes)
  ultimately show ?thesis
    using r by blast
qed

section \<open>Monotonicity of the block numbers\<close>












section \<open>The placeholder of the shorter side\<close>

lemma compare_loop_NoDiff_iff:
  "(compare_loop la lb is = NoDiff)
     = list_all (\<lambda>i. collapse_ws (line_or_eof la i) = collapse_ws (line_or_eof lb i)) is"
  by (induction "is") (simp_all add: Let_def)

lemma eof_chars:
  "\<not> is_space CHR ''<''" "\<not> is_space CHR ''E''" "\<not> is_space CHR ''O''"
  "\<not> is_space CHR ''F''" "\<not> is_space CHR ''>''"
  "\<not> is_word CHR ''<''" "\<not> is_word CHR ''>''" "is_word CHR ''E''" "is_word CHR ''O''"
  "is_word CHR ''F''"
  by (simp_all add: is_space_def is_word_def cp_def)

lemma collapse_eof: "collapse_ws ''<EOF>'' = ''<EOF>''"
  by (simp add: eof_chars)

lemma strip_eof: "strip ''<EOF>'' = ''<EOF>''"
  by (simp add: strip_def lstrip_def rstrip_def eof_chars)

lemma search_M02_eof: "\<not> search_M02 ''<EOF>''"
  by (simp add: search_M02_def token_at_def)

lemma trim_eof: "trim pol [''<EOF>''] = [''<EOF>'']"
  by (simp add: trim_def strip_eof search_M02_eof)

lemma trim_Nil: "trim pol [] = []"
  by (simp add: trim_def)

lemma compare_longer_eof:
  assumes len: "length lb \<le> length la"
    and common: "\<forall>i<length lb. collapse_ws (strip (la ! i)) = collapse_ws (strip (lb ! i))"
    and extra: "\<forall>i. length lb \<le> i \<and> i < length la \<longrightarrow> collapse_ws (strip (la ! i)) = ''<EOF>''"
  shows "compare_loop la lb [0..<max (length la) (length lb)] = NoDiff"
    and "compare_loop lb la [0..<max (length lb) (length la)] = NoDiff"
proof -
  have eq: "collapse_ws (line_or_eof la i) = collapse_ws (line_or_eof lb i)"
    if "i < length la" for i
  proof (cases "i < length lb")
    case True
    then show ?thesis
      using that common by (simp add: line_or_eof_def)
  next
    case False
    then have "collapse_ws (strip (la ! i)) = ''<EOF>''"
      using that extra by simp
    moreover have "line_or_eof la i = strip (la ! i)" "line_or_eof lb i = ''<EOF>''"
      using that False by (simp_all add: line_or_eof_def)
    ultimately show ?thesis
      by (simp only: collapse_eof)
  qed
  have m: "max (length la) (length lb) = length la" "max (length lb) (length la) = length la"
    using len by simp_all
  show "compare_loop la lb [0..<max (length la) (length lb)] = NoDiff"
    unfolding m compare_loop_NoDiff_iff list_all_iff using eq by simp
  show "compare_loop lb la [0..<max (length lb) (length la)] = NoDiff"
    unfolding m compare_loop_NoDiff_iff list_all_iff using eq by simp
qed

lemma space_chars: "is_space CHR '' ''" "\<not> is_word CHR '' ''"
  by (simp_all add: is_space_def is_word_def cp_def)

lemma strip_padded_eof: "strip '' <EOF> '' = ''<EOF>''"
  by (simp add: strip_def lstrip_def rstrip_def eof_chars space_chars)

lemma search_M02_padded_eof: "\<not> search_M02 '' <EOF> ''"
  by (simp add: search_M02_def token_at_def)

text \<open>
  Claim C10. Trimmed sequences of different lengths can compare as equal: when the two
  trimmed sequences agree (after trimming each line and collapsing its whitespace) as far
  as the shorter one goes, and every further line of the longer one is \<^verbatim>\<open><EOF>\<close>
  after trimming and collapsing, the comparison reports no divergence, whichever side is
  the longer. The pair of the lines \<^verbatim>\<open>["<EOF>"]\<close> and \<^verbatim>\<open>[]\<close> is such a pair under
  every policy: trimming changes neither, and \<^verbatim>\<open>first_diff_line\<close> is \<^verbatim>\<open>None\<close>.
\<close>

theorem eof_placeholder_equal:
  "(length (trim pol b) \<le> length (trim pol a)
      \<and> (\<forall>i<length (trim pol b).
            collapse_ws (strip (trim pol a ! i)) = collapse_ws (strip (trim pol b ! i)))
      \<and> (\<forall>i. length (trim pol b) \<le> i \<and> i < length (trim pol a)
            \<longrightarrow> collapse_ws (strip (trim pol a ! i)) = ''<EOF>'')
     \<longrightarrow> first_diff_line (compare_lines pol a b) = None
         \<and> first_diff_line (compare_lines pol b a) = None)
   \<and> trim pol [''<EOF>''] = [''<EOF>''] \<and> trim pol [] = []
   \<and> first_diff_line (compare_lines pol [''<EOF>''] []) = None"
proof -
  have ex: "compare_lines pol [''<EOF>''] [] = NoDiff"
    by (simp add: compare_lines_def trim_eof trim_Nil line_or_eof_def strip_eof)
  show ?thesis
    using compare_longer_eof [of "trim pol b" "trim pol a"] ex
    by (simp add: compare_lines_def Let_def first_diff_line_def trim_eof trim_Nil)
qed


theorem eof_placeholder_equal_witness:
  "length (trim \<lparr>skip_header_percent = True, skip_trailing_m02 = True\<rparr> [''<EOF>''])
     < length (trim \<lparr>skip_header_percent = True, skip_trailing_m02 = True\<rparr>
         [''<EOF>'', '' <EOF> ''])
   \<and> first_diff_line (compare_lines \<lparr>skip_header_percent = True, skip_trailing_m02 = True\<rparr>
         [''<EOF>'', '' <EOF> ''] [''<EOF>'']) = None"
proof -
  let ?p = "\<lparr>skip_header_percent = True, skip_trailing_m02 = True\<rparr>"
  have ta: "trim ?p [''<EOF>'', '' <EOF> ''] = [''<EOF>'', '' <EOF> '']"
    by (simp add: trim_def strip_eof search_M02_padded_eof)
  have tb: "trim ?p [''<EOF>''] = [''<EOF>'']"
    by (rule trim_eof)
  have extra: "\<forall>i. length [''<EOF>''] \<le> i \<and> i < length [''<EOF>'', '' <EOF> '']
      \<longrightarrow> collapse_ws (strip ([''<EOF>'', '' <EOF> ''] ! i)) = ''<EOF>''"
  proof (intro allI impI)
    fix i :: nat
    assume "length [''<EOF>''] \<le> i \<and> i < length [''<EOF>'', '' <EOF> '']"
    then have "i = 1" by simp
    then show "collapse_ws (strip ([''<EOF>'', '' <EOF> ''] ! i)) = ''<EOF>''"
      by (simp add: strip_padded_eof collapse_eof del: collapse_ws.simps)
  qed
  have common: "\<forall>i<length [''<EOF>'']. collapse_ws (strip ([''<EOF>'', '' <EOF> ''] ! i))
      = collapse_ws (strip ([''<EOF>''] ! i))"
    by simp
  show ?thesis
    using eof_placeholder_equal [of ?p "[''<EOF>'']" "[''<EOF>'', '' <EOF> '']"] extra common
    unfolding ta tb by simp
qed

section \<open>The loop of the normalizer\<close>

lemma header_fst: "fst (header cfg src) = (if add_percent cfg then [''%''] else [])"
  by (simp add: header_def)

lemma header_snd_set: "set (snd (header cfg src)) \<subseteq> set src"
  by (cases src) (auto simp: header_def)

lemma pure_traced_loop_eq:
  "pure_traced_loop cfg src =
     (map (\<lambda>l. (l, None)) (fst (header cfg src)) @ emitted cfg (start_n cfg) (snd (header cfg src)),
      counter cfg (start_n cfg) (snd (header cfg src)))"
  by (simp add: pure_traced_loop_def split: prod.splits)

lemma pure_loop_eq:
  "pure_loop cfg src =
     (fst (header cfg src) @ map fst (emitted cfg (start_n cfg) (snd (header cfg src))),
      counter cfg (start_n cfg) (snd (header cfg src)))"
  by (simp add: pure_loop_def pure_traced_loop_def comp_def split: prod.splits)

lemma pure_loop_traced:
  "pure_loop cfg src = (map fst (fst (pure_traced_loop cfg src)), snd (pure_traced_loop cfg src))"
  by (simp add: pure_loop_eq pure_traced_loop_eq comp_def)

lemma filter_map_fst:
  "filter P (map fst ts) = map fst (filter (\<lambda>(l, a). P l) ts)"
  by (induction ts) auto

lemma pure_lines_traced: "map fst (pure_traced_lines cfg src) = pure_lines cfg src"
  by (simp add: pure_lines_def pure_traced_lines_def pure_loop_traced filter_map_fst
      split: prod.splits)

lemma assigned_numbers_simps [simp]:
  "assigned_numbers [] = []"
  "assigned_numbers ((l, None) # ts) = assigned_numbers ts"
  "assigned_numbers ((l, Some k) # ts) = k # assigned_numbers ts"
  "assigned_numbers (ts @ us) = assigned_numbers ts @ assigned_numbers us"
  by (simp_all add: assigned_numbers_def)

lemma emitted_numbers:
  "assigned_numbers (emitted cfg n src)
     = map (\<lambda>i. n + int i * step cfg) [0..<length (assigned_numbers (emitted cfg n src))]
   \<and> counter cfg n src = n + int (length (assigned_numbers (emitted cfg n src))) * step cfg"
proof (induction src arbitrary: n)
  case Nil
  show ?case by simp
next
  case (Cons ln rest)
  show ?case
  proof (cases "clean_line cfg ln")
    case None
    then show ?thesis using Cons.IH [of n] by simp
  next
    case (Some s)
    show ?thesis
    proof (cases "has_block_number s")
      case True
      then show ?thesis using Some Cons.IH [of n] by simp
    next
      case False
      let ?k = "length (assigned_numbers (emitted cfg (n + step cfg) rest))"
      have shift: "map (\<lambda>i. n + step cfg + int i * step cfg) [0..<?k]
            = map (\<lambda>i. n + int i * step cfg) [Suc 0..<Suc ?k]"
        by (simp add: map_Suc_upt [symmetric] algebra_simps del: upt_Suc)
      have "assigned_numbers (emitted cfg n (ln # rest))
            = n # assigned_numbers (emitted cfg (n + step cfg) rest)"
        using Some False by simp
      also have "\<dots> = n # map (\<lambda>i. n + int i * step cfg) [Suc 0..<Suc ?k]"
        using Cons.IH [of "n + step cfg"] shift by simp
      also have "\<dots> = map (\<lambda>i. n + int i * step cfg) [0..<Suc ?k]"
        by (simp add: upt_rec [of 0] del: upt_Suc)
      finally have a: "assigned_numbers (emitted cfg n (ln # rest))
            = map (\<lambda>i. n + int i * step cfg) [0..<Suc ?k]" .
      have l: "length (assigned_numbers (emitted cfg n (ln # rest))) = Suc ?k"
        using Some False by simp
      have c: "counter cfg n (ln # rest) = n + int (Suc ?k) * step cfg"
        using Some False Cons.IH [of "n + step cfg"] by (simp add: algebra_simps)
      show ?thesis
        unfolding l using a c by blast
    qed
  qed
qed

lemma pure_traced_loop_numbers:
  "assigned_numbers (fst (pure_traced_loop cfg src))
     = map (\<lambda>i. start_n cfg + int i * step cfg)
         [0..<length (assigned_numbers (fst (pure_traced_loop cfg src)))]"
  "snd (pure_traced_loop cfg src)
     = start_n cfg + int (length (assigned_numbers (fst (pure_traced_loop cfg src)))) * step cfg"
proof -
  have h: "assigned_numbers (map (\<lambda>l. (l, None)) ls) = []" for ls :: "string list"
    by (induction ls) simp_all
  have e: "assigned_numbers (fst (pure_traced_loop cfg src))
      = assigned_numbers (emitted cfg (start_n cfg) (snd (header cfg src)))"
    by (simp add: pure_traced_loop_eq h)
  show "assigned_numbers (fst (pure_traced_loop cfg src))
     = map (\<lambda>i. start_n cfg + int i * step cfg)
         [0..<length (assigned_numbers (fst (pure_traced_loop cfg src)))]"
    unfolding e using emitted_numbers [of cfg "start_n cfg" "snd (header cfg src)"] by blast
  show "snd (pure_traced_loop cfg src)
     = start_n cfg + int (length (assigned_numbers (fst (pure_traced_loop cfg src)))) * step cfg"
    unfolding e using emitted_numbers [of cfg "start_n cfg" "snd (header cfg src)"]
    by (simp add: pure_traced_loop_eq)
qed

section \<open>The program and its closed form\<close>

lemma str_nat_length: "0 < k \<Longrightarrow> (length (str_nat n) \<le> k) = (n < 10 ^ k)"
proof (induction n arbitrary: k rule: str_nat.induct)
  case (1 n)
  show ?case
  proof (cases "n < 10")
    case True
    have "(10::nat) ^ 1 \<le> 10 ^ k"
      using "1.prems" by (intro power_increasing) simp_all
    then have "n < 10 ^ k"
      using True by simp
    then show ?thesis
      using True "1.prems" by (subst str_nat.simps) simp
  next
    case False
    obtain j where k: "k = Suc j"
      using "1.prems" by (cases k) simp_all
    have len: "length (str_nat n) = Suc (length (str_nat (n div 10)))"
      using False by (subst str_nat.simps) simp
    show ?thesis
    proof (cases "j = 0")
      case True
      have "0 < length (str_nat (n div 10))"
        by (subst str_nat.simps) simp
      then show ?thesis
        using False True k len by simp
    next
      case pos: False
      then have "(length (str_nat (n div 10)) \<le> j) = (n div 10 < 10 ^ j)"
        using "1.IH" [OF False, of j] by simp
      moreover have "(n div 10 < 10 ^ j) = (n < 10 ^ Suc j)"
        by (simp add: div_less_iff_less_mult mult.commute)
      ultimately show ?thesis
        using k len by simp
    qed
  qed
qed

lemma printable_iff: "printable n = (\<bar>n\<bar> < 10 ^ max_str_digits)"
proof -
  have "0 < max_str_digits"
    by (simp add: max_str_digits_def)
  then have "printable n = (nat \<bar>n\<bar> < 10 ^ max_str_digits)"
    unfolding printable_def by (rule str_nat_length)
  also have "\<dots> = (\<bar>n\<bar> < 10 ^ max_str_digits)"
    by (simp add: nat_less_iff)
  finally show ?thesis .
qed

lemma printable_between: "0 \<le> a \<Longrightarrow> a \<le> b \<Longrightarrow> printable b \<Longrightarrow> printable a"
  by (simp add: printable_iff)

lemma numbered_line_eq:
  "numbered_line n s = (if printable n then Inr (numbered n s) else Inl ValueError)"
  by (simp add: numbered_line_def py_str_def numbered_def)

lemma traced_run_eq:
  "traced_run cfg (out, n) src =
     (if list_all printable (assigned_numbers (emitted cfg n src))
      then Inr (out @ emitted cfg n src, counter cfg n src) else Inl ValueError)"
  by (induction src arbitrary: out n)
    (simp_all add: traced_step_def numbered_line_eq split: option.splits)

lemma normalize_run_eq:
  "normalize_run cfg (out, n) src =
     (if list_all printable (assigned_numbers (emitted cfg n src))
      then Inr (out @ map fst (emitted cfg n src), counter cfg n src) else Inl ValueError)"
  by (induction src arbitrary: out n)
    (simp_all add: normalize_step_def numbered_line_eq split: option.splits)

lemma header_numbers: "assigned_numbers (map (\<lambda>l. (l, None)) ls) = []"
  by (induction ls) simp_all

lemma traced_loop_eq:
  "traced_loop cfg src =
     (if list_all printable (assigned_numbers (fst (pure_traced_loop cfg src)))
      then Inr (pure_traced_loop cfg src) else Inl ValueError)"
  by (simp add: traced_loop_def pure_traced_loop_def traced_run_eq header_numbers
      split: prod.splits)

lemma normalize_loop_eq:
  "normalize_loop cfg src =
     (if list_all printable (assigned_numbers (fst (pure_traced_loop cfg src)))
      then Inr (pure_loop cfg src) else Inl ValueError)"
  by (simp add: normalize_loop_def pure_loop_def pure_traced_loop_def normalize_run_eq
      header_numbers comp_def split: prod.splits)

lemma traced_lines_eq:
  "traced_lines cfg src =
     (if list_all printable (numbers_written cfg src)
      then Inr (pure_traced_lines cfg src) else Inl ValueError)"
  by (cases "pure_traced_loop cfg src")
    (simp add: traced_lines_def traced_loop_eq pure_traced_lines_def numbers_written_def
      numbered_line_eq)

lemma normalize_lines_eq:
  "normalize_lines cfg src =
     (if list_all printable (numbers_written cfg src)
      then Inr (pure_lines cfg src) else Inl ValueError)"
  by (cases "pure_traced_loop cfg src")
    (simp add: normalize_lines_def normalize_loop_eq pure_lines_def pure_loop_def
      numbers_written_def numbered_line_eq)

lemma normalize_lines_erase:
  "normalize_lines cfg src =
     (case traced_lines cfg src of Inl e \<Rightarrow> Inl e | Inr ts \<Rightarrow> Inr (map fst ts))"
  by (simp add: normalize_lines_eq traced_lines_eq pure_lines_traced)

lemma normalize_loop_erase:
  "normalize_loop cfg src =
     (case traced_loop cfg src of Inl e \<Rightarrow> Inl e | Inr (ts, n) \<Rightarrow> Inr (map fst ts, n))"
  by (simp add: normalize_loop_eq traced_loop_eq pure_loop_def split: prod.splits)

lemma emitted_count: "length (assigned_numbers (emitted cfg n src)) \<le> length src"
proof (induction src arbitrary: n)
  case Nil
  show ?case by simp
next
  case (Cons ln rest)
  show ?case
    using Cons [of n] Cons [of "n + step cfg"]
    by (simp split: option.splits)
qed

lemma header_snd_length: "length (snd (header cfg src)) \<le> length src"
  by (cases src) (simp_all add: header_def)

lemma numbers_written_form:
  "numbers_written cfg src
     = map (\<lambda>i. start_n cfg + int i * step cfg)
         [0..<length (assigned_numbers (fst (pure_traced_loop cfg src)))
               + (if ensure_M02 cfg then 1 else 0)]"
  using pure_traced_loop_numbers [of cfg src]
  by (cases "pure_traced_loop cfg src") (simp add: numbers_written_def)

lemma numbers_written_printable:
  assumes "0 \<le> start_n cfg" "0 \<le> step cfg"
    and "start_n cfg + int (length src) * step cfg < 10 ^ max_str_digits"
  shows "list_all printable (numbers_written cfg src)"
proof -
  let ?k = "length (assigned_numbers (fst (pure_traced_loop cfg src)))"
  have "?k = length (assigned_numbers (emitted cfg (start_n cfg) (snd (header cfg src))))"
    by (simp add: pure_traced_loop_eq header_numbers)
  then have k: "?k \<le> length src"
    using emitted_count [of cfg "start_n cfg" "snd (header cfg src)"]
      header_snd_length [of cfg src] by simp
  have "printable (start_n cfg + int i * step cfg)" if "i \<le> ?k" for i
  proof -
    have "int i * step cfg \<le> int (length src) * step cfg"
      using that k assms(2) by (intro mult_right_mono) simp_all
    moreover have "0 \<le> int i * step cfg"
      using assms(2) by simp
    ultimately show ?thesis
      using assms(1,3) by (simp add: printable_iff)
  qed
  then show ?thesis
    unfolding numbers_written_form by (auto simp: list_all_iff)
qed

lemma start_written: "ensure_M02 cfg \<Longrightarrow> start_n cfg \<in> set (numbers_written cfg src)"
proof -
  assume "ensure_M02 cfg"
  then have "numbers_written cfg src
      = map (\<lambda>i. start_n cfg + int i * step cfg)
          [0..<Suc (length (assigned_numbers (fst (pure_traced_loop cfg src))))]"
    by (simp add: numbers_written_form)
  then have "hd (numbers_written cfg src) = start_n cfg" "numbers_written cfg src \<noteq> []"
    by (simp_all add: upt_rec [of 0] del: upt_Suc)
  then show ?thesis
    by (metis hd_in_set)
qed

section \<open>The single trailing stop code\<close>

lemma search_M02_from_suffix:
  "\<not> is_word c \<Longrightarrow> search_M02_from prev (p @ c # ''M02'')"
proof (induction p arbitrary: prev)
  case Nil
  then show ?case
    by (simp add: token_at_def boundary_before_def boundary_after_def)
next
  case (Cons x p)
  then show ?case by simp
qed

lemma search_M02_numbered: "search_M02 (numbered n ''M02'')"
proof -
  have "\<not> is_word CHR '' ''"
    by (simp add: is_word_def cp_def)
  then have "search_M02_from None ((''N'' @ str_int n) @ CHR '' '' # ''M02'')"
    by (rule search_M02_from_suffix)
  then show ?thesis
    by (simp add: search_M02_def numbered_def)
qed

lemma count_list_filter_out: "\<not> P x \<Longrightarrow> count_list (filter P xs) x = 0"
  by (induction xs) auto

lemma pure_lines_stop:
  assumes "ensure_M02 cfg"
  shows "pure_lines cfg src
           = butlast (pure_lines cfg src)
             @ [numbered (snd (pure_loop cfg src)) ''M02'']
         \<and> (\<forall>l \<in> set (butlast (pure_lines cfg src)). \<not> search_M02 l)
         \<and> count_list (pure_lines cfg src)
             (numbered (snd (pure_loop cfg src)) ''M02'') = 1"
proof -
  obtain out n where loop: "pure_loop cfg src = (out, n)"
    by (cases "pure_loop cfg src")
  have lines: "pure_lines cfg src
      = filter (\<lambda>l. \<not> search_M02 l) out @ [numbered n ''M02'']"
    using assms by (simp add: pure_lines_def loop)
  have cnt: "count_list (filter (\<lambda>l. \<not> search_M02 l) out) (numbered n ''M02'') = 0"
    by (rule count_list_filter_out) (simp add: search_M02_numbered)
  show ?thesis
    unfolding lines loop using cnt by simp
qed

lemma stop_example_lines:
  "normalize_lines default_config [''G01'', ''M02'', ''N5 M2 X'']
     = Inr [''%'', ''N10 G01'', ''N30 M02'']"
  by code_simp

lemma plain_chars:
  "\<not> is_space CHR ''G''" "\<not> is_space CHR ''0''" "\<not> is_space CHR ''1''"
  "\<not> is_space CHR ''%''"
  by (simp_all add: is_space_def cp_def)

lemma plain_line:
  "strip ''G01'' = ''G01''" "collapse_ws ''G01'' = ''G01''" "\<not> has_block_number ''G01''"
  by (simp_all add: strip_def lstrip_def rstrip_def has_block_number_def plain_chars)

text \<open>
  Claim C4, as stated, fails: not every configuration has an output. With the start value
  of 4300 nines and the increment 1, the line \<^verbatim>\<open>G01\<close> gets the start value, and the
  counter of the stop line has 4301 digits: the f-string raises \<^verbatim>\<open>ValueError\<close> and
  nothing is written.
\<close>

theorem stop_line_raises:
  "ensure_M02 (default_config\<lparr>start_n := 10 ^ max_str_digits - 1, step := 1\<rparr>)
   \<and> normalize_lines (default_config\<lparr>start_n := 10 ^ max_str_digits - 1, step := 1\<rparr>)
        [''G01''] = Inl ValueError"
proof -
  let ?c = "default_config\<lparr>start_n := 10 ^ max_str_digits - 1, step := 1\<rparr>"
  have e: "ensure_M02 ?c" "add_percent ?c" "strip_semicolon ?c" "step ?c = 1"
    "start_n ?c = 10 ^ max_str_digits - 1"
    by (simp_all add: default_config_def)
  have cl: "clean_line ?c ''G01'' = Some ''G01''"
    by (simp add: clean_line_def plain_line)
  have hd: "header ?c [''G01''] = ([''%''], [''G01''])"
    by (simp add: header_def e plain_line)
  have "numbers_written ?c [''G01''] = [10 ^ max_str_digits - 1, 10 ^ max_str_digits]"
    by (simp add: numbers_written_def pure_traced_loop_def hd cl plain_line e)
  moreover have "\<not> printable (10 ^ max_str_digits)"
    by (simp add: printable_iff)
  ultimately have "\<not> list_all printable (numbers_written ?c [''G01''])"
    by simp
  then show ?thesis
    using e(1) by (simp add: normalize_lines_eq)
qed

text \<open>
  Claim C4, amended. With \<^verbatim>\<open>ensure_M02\<close> set, the run raises \<^verbatim>\<open>ValueError\<close>
  exactly when one of the numbers it has to write (the numbers it assigns and the counter
  of the stop line) has more than 4300 digits; it does not when the start value and the
  increment are not negative and the start value plus one increment for every source
  line has at most 4300 digits. Whenever it returns, the output lines end with the line
  \<^verbatim>\<open>N<counter> M02\<close>, where the counter is the value the loop ended with (the start
  value plus one increment for every line the loop numbered, not moved any further); no
  line before it has a whole-word match of \<^verbatim>\<open>M2\<close> or \<^verbatim>\<open>M02\<close>, and the stop line
  occurs exactly once in the output.
\<close>

theorem single_trailing_stop:
  assumes "ensure_M02 cfg"
  shows "(normalize_lines cfg src = Inl ValueError)
           = (\<not> list_all printable (numbers_written cfg src))
         \<and> (0 \<le> start_n cfg \<and> 0 \<le> step cfg
              \<and> start_n cfg + int (length src) * step cfg < 10 ^ max_str_digits
            \<longrightarrow> (\<exists>out. normalize_lines cfg src = Inr out))
         \<and> (\<forall>out. normalize_lines cfg src = Inr out \<longrightarrow>
              (\<exists>ts n stop.
                 traced_loop cfg src = Inr (ts, n)
                 \<and> normalize_loop cfg src = Inr (map fst ts, n)
                 \<and> n = start_n cfg + int (length (assigned_numbers ts)) * step cfg
                 \<and> numbered_line n ''M02'' = Inr stop
                 \<and> out = butlast out @ [stop]
                 \<and> (\<forall>l \<in> set (butlast out). \<not> search_M02 l)
                 \<and> count_list out stop = 1))"
proof (intro conjI allI impI)
  show "(normalize_lines cfg src = Inl ValueError)
      = (\<not> list_all printable (numbers_written cfg src))"
    by (simp add: normalize_lines_eq)
next
  assume "0 \<le> start_n cfg \<and> 0 \<le> step cfg
      \<and> start_n cfg + int (length src) * step cfg < 10 ^ max_str_digits"
  then have "list_all printable (numbers_written cfg src)"
    using numbers_written_printable by blast
  then show "\<exists>out. normalize_lines cfg src = Inr out"
    by (simp add: normalize_lines_eq)
next
  fix out
  assume out: "normalize_lines cfg src = Inr out"
  obtain ts n where p: "pure_traced_loop cfg src = (ts, n)"
    by (cases "pure_traced_loop cfg src")
  have w: "list_all printable (numbers_written cfg src)" and o: "out = pure_lines cfg src"
    using out by (simp_all add: normalize_lines_eq split: if_splits)
  have a: "list_all printable (assigned_numbers ts)" and pn: "printable n"
    using w assms by (simp_all add: numbers_written_def p)
  have t: "traced_loop cfg src = Inr (ts, n)"
    using a by (simp add: traced_loop_eq p)
  have l: "pure_loop cfg src = (map fst ts, n)"
    by (simp add: pure_loop_def p)
  then have nl: "normalize_loop cfg src = Inr (map fst ts, n)"
    using a by (simp add: normalize_loop_eq p)
  have n: "n = start_n cfg + int (length (assigned_numbers ts)) * step cfg"
    using pure_traced_loop_numbers(2) [of cfg src] by (simp add: p)
  have s: "numbered_line n ''M02'' = Inr (numbered n ''M02'')"
    using pn by (simp add: numbered_line_eq)
  have "out = butlast out @ [numbered n ''M02'']
      \<and> (\<forall>l \<in> set (butlast out). \<not> search_M02 l)
      \<and> count_list out (numbered n ''M02'') = 1"
    using pure_lines_stop [OF assms, of src] by (simp add: o l)
  then show "\<exists>ts n stop.
      traced_loop cfg src = Inr (ts, n)
      \<and> normalize_loop cfg src = Inr (map fst ts, n)
      \<and> n = start_n cfg + int (length (assigned_numbers ts)) * step cfg
      \<and> numbered_line n ''M02'' = Inr stop
      \<and> out = butlast out @ [stop]
      \<and> (\<forall>l \<in> set (butlast out). \<not> search_M02 l)
      \<and> count_list out stop = 1"
    using t nl n s by blast
qed

theorem single_trailing_stop_witness:
  "ensure_M02 default_config
   \<and> normalize_lines default_config [''G01'', ''M02'', ''N5 M2 X'']
       = Inr [''%'', ''N10 G01'', ''N30 M02'']
   \<and> (\<exists>stop. [''%'', ''N10 G01'', ''N30 M02''] = [''%'', ''N10 G01''] @ [stop]
         \<and> count_list [''%'', ''N10 G01'', ''N30 M02''] stop = 1)"
proof -
  have h: "ensure_M02 default_config"
    by (simp add: default_config_def)
  obtain ts n stop where
    "[''%'', ''N10 G01'', ''N30 M02''] = butlast [''%'', ''N10 G01'', ''N30 M02''] @ [stop]"
    "count_list [''%'', ''N10 G01'', ''N30 M02''] stop = 1"
    using single_trailing_stop [OF h, of "[''G01'', ''M02'', ''N5 M2 X'']"]
      stop_example_lines by blast
  then show ?thesis
    using h stop_example_lines by auto
qed

section \<open>The numbers the normalizer assigns\<close>

lemma step_apart_iff: "step_apart d a b = (\<exists>m. 0 < m \<and> b = a + int m * d)"
proof (cases "d = 0")
  case True
  have "(\<exists>m::nat. 0 < m \<and> b = a) = (b = a)"
    by (auto intro: exI [of _ 1])
  then show ?thesis
    using True by (simp add: step_apart_def)
next
  case False
  have "((b - a) mod d = 0 \<and> 0 < (b - a) div d) = (\<exists>m. 0 < m \<and> b = a + int m * d)"
  proof
    assume h: "(b - a) mod d = 0 \<and> 0 < (b - a) div d"
    let ?m = "nat ((b - a) div d)"
    have "b - a = (b - a) div d * d"
      using h by (simp add: mod_eq_0_iff_dvd)
    then have "b = a + int ?m * d"
      using h by simp
    moreover have "0 < ?m"
      using h by simp
    ultimately show "\<exists>m. 0 < m \<and> b = a + int m * d"
      by blast
  next
    assume "\<exists>m. 0 < m \<and> b = a + int m * d"
    then obtain m where m: "0 < m" "b = a + int m * d"
      by blast
    then have "b - a = int m * d"
      by simp
    then show "(b - a) mod d = 0 \<and> 0 < (b - a) div d"
      using False m(1) by simp
  qed
  then show ?thesis
    using False by (simp add: step_apart_def)
qed

lemma assigned_numbers_filter_set:
  "set (assigned_numbers (filter Q ts)) \<subseteq> set (assigned_numbers ts)"
proof (induction ts)
  case Nil
  show ?case by simp
next
  case (Cons t ts)
  obtain l a where t: "t = (l, a)" by (cases t)
  show ?case using Cons t by (cases a) auto
qed

lemma sorted_wrt_assigned_filter:
  "sorted_wrt R (assigned_numbers ts) \<Longrightarrow> sorted_wrt R (assigned_numbers (filter Q ts))"
proof (induction ts)
  case Nil
  show ?case by simp
next
  case (Cons t ts)
  obtain l a where t: "t = (l, a)" by (cases t)
  show ?case
  proof (cases a)
    case None
    then show ?thesis using Cons t by simp
  next
    case (Some k)
    then show ?thesis
      using Cons t assigned_numbers_filter_set [of Q ts] by auto
  qed
qed

lemma sorted_wrt_arith:
  "sorted_wrt (step_apart d) (map (\<lambda>i. n + int i * d) [0..<k])"
proof -
  have "sorted_wrt (\<lambda>i j. step_apart d (n + int i * d) (n + int j * d)) [0..<k]"
  proof (rule sorted_wrt_mono_rel [of _ "(<)"])
    fix i j :: nat
    assume "i < j"
    then have "0 < j - i \<and> n + int j * d = n + int i * d + int (j - i) * d"
      by (simp add: algebra_simps of_nat_diff)
    then show "step_apart d (n + int i * d) (n + int j * d)"
      unfolding step_apart_iff by blast
  next
    show "sorted_wrt (<) [0..<k]" by simp
  qed
  then show ?thesis by (simp add: sorted_wrt_map)
qed

lemma successively_arith:
  "successively (\<lambda>a b. b = a + d) (map (\<lambda>i. n + int i * d) [0..<k])"
proof (induction k)
  case 0
  show ?case by simp
next
  case (Suc k)
  show ?case
  proof (cases k)
    case 0
    then show ?thesis by simp
  next
    case (Suc j)
    then show ?thesis
      using Suc.IH by (simp add: successively_append_iff algebra_simps)
  qed
qed

lemma emitted_origin:
  "list_all (\<lambda>(l, a). case a of
        None \<Rightarrow> has_block_number l \<and> (\<exists>ln \<in> set src. clean_line cfg ln = Some l)
      | Some k \<Rightarrow> (\<exists>ln \<in> set src. \<exists>s. clean_line cfg ln = Some s
                     \<and> \<not> has_block_number s \<and> l = numbered k (collapse_ws s)))
     (emitted cfg n src)"
proof (induction src arbitrary: n)
  case Nil
  show ?case by simp
next
  case (Cons ln rest)
  have weaken: "list_all (\<lambda>(l, a). case a of
        None \<Rightarrow> has_block_number l \<and> (\<exists>x \<in> set (ln # rest). clean_line cfg x = Some l)
      | Some k \<Rightarrow> (\<exists>x \<in> set (ln # rest). \<exists>s. clean_line cfg x = Some s
                     \<and> \<not> has_block_number s \<and> l = numbered k (collapse_ws s)))
     (emitted cfg m rest)" for m
    using Cons.IH [of m] unfolding list_all_iff
    by (auto split: option.splits)
  show ?case
  proof (cases "clean_line cfg ln")
    case None
    then show ?thesis using weaken [of n] by simp
  next
    case (Some s)
    then show ?thesis
      using weaken [of n] weaken [of "n + step cfg"] by auto
  qed
qed

lemma traced_origin:
  "list_all (\<lambda>(l, a). case a of
        None \<Rightarrow> l = ''%'' \<or> (has_block_number l \<and> (\<exists>ln \<in> set src. clean_line cfg ln = Some l))
      | Some k \<Rightarrow> (\<exists>ln \<in> set src. \<exists>s. clean_line cfg ln = Some s
                     \<and> \<not> has_block_number s \<and> l = numbered k (collapse_ws s)))
     (fst (pure_traced_loop cfg src))"
proof -
  have e: "list_all (\<lambda>(l, a). case a of
        None \<Rightarrow> l = ''%'' \<or> (has_block_number l \<and> (\<exists>ln \<in> set src. clean_line cfg ln = Some l))
      | Some k \<Rightarrow> (\<exists>ln \<in> set src. \<exists>s. clean_line cfg ln = Some s
                     \<and> \<not> has_block_number s \<and> l = numbered k (collapse_ws s)))
     (emitted cfg (start_n cfg) (snd (header cfg src)))"
    using emitted_origin [of "snd (header cfg src)" cfg "start_n cfg"]
      header_snd_set [of cfg src]
    unfolding list_all_iff by (fastforce split: option.splits)
  show ?thesis
    using e by (simp add: pure_traced_loop_eq header_fst)
qed

lemma pure_traced_lines_sorted:
  "sorted_wrt (step_apart (step cfg)) (assigned_numbers (pure_traced_lines cfg src))"
proof -
  obtain out n where loop: "pure_traced_loop cfg src = (out, n)"
    by (cases "pure_traced_loop cfg src")
  let ?k = "length (assigned_numbers out)"
  let ?f = "\<lambda>i. start_n cfg + int i * step cfg"
  have out: "assigned_numbers out = map ?f [0..<?k]" and n: "n = ?f ?k"
    using pure_traced_loop_numbers [of cfg src] by (simp_all add: loop)
  have s: "sorted_wrt (step_apart (step cfg)) (assigned_numbers out)"
    using sorted_wrt_arith [of "step cfg" "start_n cfg" ?k] out by simp
  show ?thesis
  proof (cases "ensure_M02 cfg")
    case False
    then show ?thesis using s by (simp add: pure_traced_lines_def loop)
  next
    case True
    let ?flt = "filter (\<lambda>(l, a). \<not> search_M02 l) out"
    have sf: "sorted_wrt (step_apart (step cfg)) (assigned_numbers ?flt)"
      using s by (rule sorted_wrt_assigned_filter)
    have below: "step_apart (step cfg) x n" if "x \<in> set (assigned_numbers ?flt)" for x
    proof -
      have "x \<in> set (assigned_numbers out)"
        using that assigned_numbers_filter_set by blast
      then obtain i where i: "i < ?k" "x = ?f i"
        using out by (metis (no_types, lifting) add_0 in_set_conv_nth length_map length_upt
            minus_nat.diff_0 nth_map nth_upt)
      then have "0 < ?k - i \<and> n = x + int (?k - i) * step cfg"
        unfolding n by (simp add: algebra_simps of_nat_diff)
      then show ?thesis unfolding step_apart_iff by blast
    qed
    show ?thesis
      using True sf below by (simp add: pure_traced_lines_def loop sorted_wrt_append)
  qed
qed

lemma step_apart_less: "0 < d \<Longrightarrow> step_apart d a b \<Longrightarrow> a < b"
proof -
  assume d: "0 < d" and "step_apart d a b"
  then obtain m where m: "0 < m" "b = a + int m * d"
    unfolding step_apart_iff by blast
  then have "0 < int m * d" using d by simp
  then show ?thesis using m by simp
qed

lemma kept_lines:
  "map fst (filter (\<lambda>(l, a). a = None) (emitted cfg n src))
     = filter has_block_number (List.map_filter (clean_line cfg) src)"
proof (induction src arbitrary: n)
  case Nil
  show ?case by (simp add: List.map_filter_simps)
next
  case (Cons ln rest)
  show ?case
    using Cons [of n] Cons [of "n + step cfg"]
    by (simp add: List.map_filter_simps split: option.splits)
qed

lemma kept_lines_loop:
  "map fst (filter (\<lambda>(l, a). a = None) (fst (pure_traced_loop cfg src)))
     = fst (header cfg src)
       @ filter has_block_number (List.map_filter (clean_line cfg) (snd (header cfg src)))"
proof -
  have "filter (\<lambda>(l, a). a = None) (map (\<lambda>l. (l, None)) ls) = map (\<lambda>l. (l, None)) ls"
    for ls :: "string list"
    by (induction ls) simp_all
  then show ?thesis
    by (simp add: pure_traced_loop_eq kept_lines comp_def)
qed

lemma gap_example:
  "traced_lines default_config [''G01'', ''M02'']
     = Inr [(''%'', None), (''N10 G01'', Some 10), (''N30 M02'', Some 30)]"
  by code_simp

lemma gap_example_lines:
  "normalize_lines default_config [''G01'', ''M02''] = Inr [''%'', ''N10 G01'', ''N30 M02'']"
  by code_simp

lemma increase_example:
  "traced_lines \<lparr> start_n = 10, step = 10, add_percent = True, ensure_M02 = False,
       crlf = True, strip_semicolon = True \<rparr> [''G01  X1 ; cut'', ''N7 G02'', ''M30'']
     = Inr [(''%'', None), (''N10 G01 X1'', Some 10), (''N7 G02'', None),
            (''N20 M30'', Some 20)]"
  by code_simp

text \<open>
  Claim C5, as stated, fails: with \<^verbatim>\<open>ensure_M02\<close> the lines with a stop code are
  removed after they were numbered, and their numbers are missing in the output. For the
  lines \<^verbatim>\<open>G01\<close> and \<^verbatim>\<open>M02\<close> the output carries the assigned numbers 10 and 30,
  which are two increments apart.
\<close>

theorem assigned_numbers_gap:
  "normalize_lines default_config [''G01'', ''M02''] = Inr [''%'', ''N10 G01'', ''N30 M02'']
   \<and> traced_lines default_config [''G01'', ''M02'']
       = Inr [(''%'', None), (''N10 G01'', Some 10), (''N30 M02'', Some 30)]
   \<and> assigned_numbers [(''%'', None), (''N10 G01'', Some 10), (''N30 M02'', Some 30)]
       = [10, 30]
   \<and> \<not> successively (\<lambda>a b. b = a + step default_config) [10, 30]"
  unfolding gap_example gap_example_lines by (simp add: default_config_def)

text \<open>
  Claim C5, amended. The program's output is the traced output without the notes. The
  run raises \<^verbatim>\<open>ValueError\<close> exactly when one of the numbers it has to write has more
  than 4300 digits; it does not when the start value and the increment are not negative
  and the start value plus one increment for every source line has at most 4300 digits.
  Whenever it returns: the numbers the loop assigns, in the order in which it emits the
  lines, are the start value, the start value plus the increment, and so on, each exactly
  one increment above the one before; the counter ends one increment above the last of
  them, and that is the number of the appended stop line. In the output the assigned
  numbers that are left after the removal of the lines with a stop code are each a
  positive number of increments above the one before, hence strictly increasing for a
  positive increment, and exactly one increment apart when \<^verbatim>\<open>ensure_M02\<close> is off.
  The lines that the loop emits without a number of its own are the percent line of the
  header and then, in source order and each as its cleaned text (trimmed, the comment cut
  off), all the source lines that already carried a block number, whatever their numbers
  are; every other emitted line is the counter's number, a space and the cleaned text of
  a source line without block number, its whitespace collapsed.
\<close>

theorem assigned_numbers_increase:
  "normalize_lines cfg src
     = (case traced_lines cfg src of Inl e \<Rightarrow> Inl e | Inr out \<Rightarrow> Inr (map fst out))
   \<and> (traced_lines cfg src = Inl ValueError)
       = (\<not> list_all printable (numbers_written cfg src))
   \<and> (0 \<le> start_n cfg \<and> 0 \<le> step cfg
        \<and> start_n cfg + int (length src) * step cfg < 10 ^ max_str_digits
      \<longrightarrow> (\<exists>out. traced_lines cfg src = Inr out))
   \<and> (\<forall>out. traced_lines cfg src = Inr out \<longrightarrow>
        (\<exists>ts n.
           traced_loop cfg src = Inr (ts, n)
           \<and> assigned_numbers ts
               = map (\<lambda>i. start_n cfg + int i * step cfg) [0..<length (assigned_numbers ts)]
           \<and> successively (\<lambda>a b. b = a + step cfg) (assigned_numbers ts)
           \<and> n = start_n cfg + int (length (assigned_numbers ts)) * step cfg
           \<and> map fst (filter (\<lambda>(l, a). a = None) ts)
               = fst (header cfg src)
                 @ filter has_block_number
                     (List.map_filter (clean_line cfg) (snd (header cfg src)))
           \<and> list_all (\<lambda>(l, a). case a of
                  None \<Rightarrow> l = ''%''
                    \<or> (has_block_number l \<and> (\<exists>ln \<in> set src. clean_line cfg ln = Some l))
                | Some k \<Rightarrow> (\<exists>ln \<in> set src. \<exists>s. clean_line cfg ln = Some s
                               \<and> \<not> has_block_number s \<and> l = numbered k (collapse_ws s)))
               ts
           \<and> out = (if ensure_M02 cfg
                     then filter (\<lambda>(l, a). \<not> search_M02 l) ts @ [(numbered n ''M02'', Some n)]
                     else ts)
           \<and> sorted_wrt (step_apart (step cfg)) (assigned_numbers out)
           \<and> (0 < step cfg \<longrightarrow> sorted_wrt (<) (assigned_numbers out))
           \<and> (\<not> ensure_M02 cfg \<longrightarrow>
                successively (\<lambda>a b. b = a + step cfg) (assigned_numbers out))))"
proof (intro conjI allI impI)
  show "normalize_lines cfg src
      = (case traced_lines cfg src of Inl e \<Rightarrow> Inl e | Inr out \<Rightarrow> Inr (map fst out))"
    by (rule normalize_lines_erase)
next
  show "(traced_lines cfg src = Inl ValueError)
      = (\<not> list_all printable (numbers_written cfg src))"
    by (simp add: traced_lines_eq)
next
  assume "0 \<le> start_n cfg \<and> 0 \<le> step cfg
      \<and> start_n cfg + int (length src) * step cfg < 10 ^ max_str_digits"
  then have "list_all printable (numbers_written cfg src)"
    using numbers_written_printable by blast
  then show "\<exists>out. traced_lines cfg src = Inr out"
    by (simp add: traced_lines_eq)
next
  fix out
  assume out: "traced_lines cfg src = Inr out"
  obtain ts n where p: "pure_traced_loop cfg src = (ts, n)"
    by (cases "pure_traced_loop cfg src")
  have w: "list_all printable (numbers_written cfg src)"
    and o: "out = pure_traced_lines cfg src"
    using out by (simp_all add: traced_lines_eq split: if_splits)
  have "list_all printable (assigned_numbers ts)"
    using w by (simp add: numbers_written_def p)
  then have c0: "traced_loop cfg src = Inr (ts, n)"
    by (simp add: traced_loop_eq p)
  have c1: "assigned_numbers ts
      = map (\<lambda>i. start_n cfg + int i * step cfg) [0..<length (assigned_numbers ts)]"
    using pure_traced_loop_numbers(1) [of cfg src] by (simp add: p)
  have c2: "successively (\<lambda>a b. b = a + step cfg) (assigned_numbers ts)"
    using successively_arith [of "step cfg" "start_n cfg" "length (assigned_numbers ts)"] c1
    by simp
  have c3: "n = start_n cfg + int (length (assigned_numbers ts)) * step cfg"
    using pure_traced_loop_numbers(2) [of cfg src] by (simp add: p)
  have c4: "map fst (filter (\<lambda>(l, a). a = None) ts)
      = fst (header cfg src)
        @ filter has_block_number (List.map_filter (clean_line cfg) (snd (header cfg src)))"
    using kept_lines_loop [of cfg src] by (simp add: p)
  have c5: "list_all (\<lambda>(l, a). case a of
        None \<Rightarrow> l = ''%''
          \<or> (has_block_number l \<and> (\<exists>ln \<in> set src. clean_line cfg ln = Some l))
      | Some k \<Rightarrow> (\<exists>ln \<in> set src. \<exists>s. clean_line cfg ln = Some s
                     \<and> \<not> has_block_number s \<and> l = numbered k (collapse_ws s)))
     ts"
    using traced_origin [of src cfg] by (simp add: p)
  have c6: "out = (if ensure_M02 cfg
      then filter (\<lambda>(l, a). \<not> search_M02 l) ts @ [(numbered n ''M02'', Some n)]
      else ts)"
    by (simp add: o pure_traced_lines_def p)
  have c7: "sorted_wrt (step_apart (step cfg)) (assigned_numbers out)"
    unfolding o by (rule pure_traced_lines_sorted)
  have c8: "0 < step cfg \<longrightarrow> sorted_wrt (<) (assigned_numbers out)"
  proof
    assume d: "0 < step cfg"
    show "sorted_wrt (<) (assigned_numbers out)"
      by (rule sorted_wrt_mono_rel [OF _ c7]) (rule step_apart_less [OF d])
  qed
  have c9: "\<not> ensure_M02 cfg \<longrightarrow>
      successively (\<lambda>a b. b = a + step cfg) (assigned_numbers out)"
    using c2 c6 by simp
  from c0 c1 c2 c3 c4 c5 c6 c7 c8 c9
  show "\<exists>ts n.
      traced_loop cfg src = Inr (ts, n)
      \<and> assigned_numbers ts
          = map (\<lambda>i. start_n cfg + int i * step cfg) [0..<length (assigned_numbers ts)]
      \<and> successively (\<lambda>a b. b = a + step cfg) (assigned_numbers ts)
      \<and> n = start_n cfg + int (length (assigned_numbers ts)) * step cfg
      \<and> map fst (filter (\<lambda>(l, a). a = None) ts)
          = fst (header cfg src)
            @ filter has_block_number
                (List.map_filter (clean_line cfg) (snd (header cfg src)))
      \<and> list_all (\<lambda>(l, a). case a of
             None \<Rightarrow> l = ''%''
               \<or> (has_block_number l \<and> (\<exists>ln \<in> set src. clean_line cfg ln = Some l))
           | Some k \<Rightarrow> (\<exists>ln \<in> set src. \<exists>s. clean_line cfg ln = Some s
                          \<and> \<not> has_block_number s \<and> l = numbered k (collapse_ws s)))
          ts
      \<and> out = (if ensure_M02 cfg
                then filter (\<lambda>(l, a). \<not> search_M02 l) ts @ [(numbered n ''M02'', Some n)]
                else ts)
      \<and> sorted_wrt (step_apart (step cfg)) (assigned_numbers out)
      \<and> (0 < step cfg \<longrightarrow> sorted_wrt (<) (assigned_numbers out))
      \<and> (\<not> ensure_M02 cfg \<longrightarrow>
           successively (\<lambda>a b. b = a + step cfg) (assigned_numbers out))"
    by blast
qed

theorem assigned_numbers_increase_witness:
  "\<not> ensure_M02 \<lparr> start_n = 10, step = 10, add_percent = True, ensure_M02 = False,
       crlf = True, strip_semicolon = True \<rparr>
   \<and> traced_lines \<lparr> start_n = 10, step = 10, add_percent = True, ensure_M02 = False,
       crlf = True, strip_semicolon = True \<rparr> [''G01  X1 ; cut'', ''N7 G02'', ''M30'']
       = Inr [(''%'', None), (''N10 G01 X1'', Some 10), (''N7 G02'', None),
              (''N20 M30'', Some 20)]
   \<and> successively (\<lambda>a b. b = a + 10)
       (assigned_numbers [(''%'', None), (''N10 G01 X1'', Some (10::int)), (''N7 G02'', None),
              (''N20 M30'', Some 20)])"
proof -
  let ?c = "\<lparr> start_n = 10, step = 10, add_percent = True, ensure_M02 = False,
       crlf = True, strip_semicolon = True \<rparr>"
  let ?out = "[(''%'', None), (''N10 G01 X1'', Some (10::int)), (''N7 G02'', None),
              (''N20 M30'', Some 20)]"
  have "\<not> ensure_M02 ?c \<longrightarrow>
      successively (\<lambda>a b. b = a + step ?c) (assigned_numbers ?out)"
    using assigned_numbers_increase [of ?c "[''G01  X1 ; cut'', ''N7 G02'', ''M30'']"]
      increase_example by blast
  then show ?thesis
    using increase_example by simp
qed

section \<open>Normalizing an output again\<close>

lemma rstrip_split: "t = rstrip t @ rev (takeWhile is_space (rev t))"
proof -
  have "rev (takeWhile is_space (rev t) @ dropWhile is_space (rev t)) = t"
    by (simp only: takeWhile_dropWhile_id rev_rev_ident)
  then show ?thesis
    by (simp only: rev_append rstrip_def)
qed

lemma rstrip_hd: "rstrip t \<noteq> [] \<Longrightarrow> hd (rstrip t) = hd t"
  using rstrip_split [of t] by (metis hd_append2)

lemma rstrip_last: "rstrip t \<noteq> [] \<Longrightarrow> \<not> is_space (last (rstrip t))"
proof -
  assume "rstrip t \<noteq> []"
  then have ne: "dropWhile is_space (rev t) \<noteq> []"
    by (simp add: rstrip_def)
  then have "\<not> is_space (hd (dropWhile is_space (rev t)))"
    by (rule hd_dropWhile)
  then show ?thesis
    using ne by (simp add: rstrip_def last_rev)
qed

lemma rstrip_set: "set (rstrip t) \<subseteq> set t"
  using set_dropWhileD [of _ is_space "rev t"] by (auto simp: rstrip_def)

lemma lstrip_set: "set (lstrip t) \<subseteq> set t"
  using set_dropWhileD [of _ is_space t] by (auto simp: lstrip_def)

lemma strip_set: "set (strip t) \<subseteq> set t"
  using rstrip_set [of "lstrip t"] lstrip_set [of t] by (auto simp: strip_def)

lemma stripped_strip: "strip ln \<noteq> [] \<Longrightarrow> stripped (strip ln)"
proof -
  assume ne: "strip ln \<noteq> []"
  then have r: "rstrip (lstrip ln) \<noteq> []"
    by (simp add: strip_def)
  then have l: "lstrip ln \<noteq> []"
    by (auto simp: rstrip_def)
  have "\<not> is_space (hd (lstrip ln))"
    using l unfolding lstrip_def by (rule hd_dropWhile)
  then have "\<not> is_space (hd (strip ln))"
    using rstrip_hd [OF r] by (simp add: strip_def)
  moreover have "\<not> is_space (last (strip ln))"
    using rstrip_last [OF r] by (simp add: strip_def)
  ultimately show ?thesis
    using ne by (simp add: stripped_def)
qed

lemma strip_stripped: "stripped s \<Longrightarrow> strip s = s"
proof -
  assume s: "stripped s"
  then obtain x xs where x: "s = x # xs" "\<not> is_space x"
    by (cases s) (auto simp: stripped_def)
  then have l: "lstrip s = s"
    by (simp add: lstrip_def)
  have "rev s \<noteq> []" "\<not> is_space (hd (rev s))"
    using s by (simp_all add: stripped_def hd_rev)
  then have "dropWhile is_space (rev s) = rev s"
    by (cases "rev s") simp_all
  then show ?thesis
    by (simp add: strip_def l rstrip_def)
qed

lemma stripped_cut:
  assumes "stripped s" "rstrip (takeWhile p s) \<noteq> []"
  shows "stripped (rstrip (takeWhile p s))"
proof -
  have t: "takeWhile p s \<noteq> []"
    using assms(2) by (auto simp: rstrip_def)
  then have "hd (takeWhile p s) = hd s"
    by (cases s) (auto split: if_splits)
  then have "\<not> is_space (hd (rstrip (takeWhile p s)))"
    using rstrip_hd [OF assms(2)] assms(1) by (simp add: stripped_def)
  then show ?thesis
    using assms(2) rstrip_last [OF assms(2)] by (simp add: stripped_def)
qed

lemma clean_line_Some:
  assumes "clean_line cfg ln = Some s"
  shows "stripped s" and "\<not> (strip_semicolon cfg \<and> CHR '';'' \<in> set s)"
proof -
  have ne: "strip ln \<noteq> []"
    using assms by (auto simp: clean_line_def Let_def split: if_splits)
  show "stripped s"
    using assms stripped_strip [OF ne] stripped_cut [of "strip ln" "\<lambda>c. c \<noteq> CHR '';''"]
    by (auto simp: clean_line_def Let_def split: if_splits)
  have "CHR '';'' \<notin> set (rstrip (takeWhile (\<lambda>c. c \<noteq> CHR '';'') (strip ln)))"
    using rstrip_set [of "takeWhile (\<lambda>c. c \<noteq> CHR '';'') (strip ln)"]
      set_takeWhileD [of "CHR '';''" "\<lambda>c. c \<noteq> CHR '';''" "strip ln"]
    by auto
  then show "\<not> (strip_semicolon cfg \<and> CHR '';'' \<in> set s)"
    using assms by (auto simp: clean_line_def Let_def split: if_splits)
qed

lemma clean_line_settled: "settled cfg l \<Longrightarrow> clean_line cfg l = Some l"
  by (auto simp: settled_def clean_line_def Let_def strip_stripped stripped_def)

lemma collapse_ws_last:
  "s \<noteq> [] \<Longrightarrow> \<not> is_space (last s) \<Longrightarrow>
     collapse_ws s \<noteq> [] \<and> \<not> is_space (last (collapse_ws s))"
proof (induction s rule: collapse_ws.induct)
  case 1
  then show ?case by simp
next
  case (2 c cs)
  show ?case
  proof (cases "is_space c")
    case True
    have d: "cs = takeWhile is_space cs @ dropWhile is_space cs"
      by simp
    have ne: "dropWhile is_space cs \<noteq> []"
    proof
      assume e: "dropWhile is_space cs = []"
      then have "\<forall>x\<in>set (c # cs). is_space x"
        using True by (simp add: dropWhile_eq_Nil_conv)
      moreover have "last (c # cs) \<in> set (c # cs)"
        by (rule last_in_set) simp
      ultimately show False using "2.prems"(2) by blast
    qed
    then have "last (dropWhile is_space cs) = last cs"
      using d by (metis last_appendR)
    moreover have "cs \<noteq> []" using ne by auto
    ultimately have "\<not> is_space (last (dropWhile is_space cs))"
      using "2.prems"(2) by simp
    then show ?thesis
      using True ne "2.IH"(1) by simp
  next
    case False
    then show ?thesis
      using "2.IH"(2) "2.prems" by (cases cs) (simp_all split: if_splits)
  qed
qed

lemma collapse_ws_set: "set (collapse_ws s) \<subseteq> insert CHR '' '' (set s)"
proof (induction s rule: collapse_ws.induct)
  case 1
  show ?case by simp
next
  case (2 c cs)
  show ?case
  proof (cases "is_space c")
    case True
    then show ?thesis
      using "2.IH"(1) set_dropWhileD [of _ is_space cs] by auto
  next
    case False
    then show ?thesis using "2.IH"(2) by auto
  qed
qed

lemma digit_char_digit: "d < 10 \<Longrightarrow> is_digit (digit_char d)"
  by (simp add: is_digit_def digit_char_def cp_def)

lemma str_nat_digits: "str_nat m \<noteq> [] \<and> list_all is_digit (str_nat m)"
proof (induction m rule: str_nat.induct)
  case (1 n)
  show ?case
  proof (cases "n < 10")
    case True
    then show ?thesis
      by (subst (1 2) str_nat.simps) (simp add: digit_char_digit)
  next
    case False
    then show ?thesis
      using 1 by (subst (1 2) str_nat.simps) (simp add: digit_char_digit)
  qed
qed

lemma fixed_chars:
  "\<not> is_space CHR ''N''" "\<not> is_digit CHR '';''" "\<not> is_space CHR ''2''"
  "\<not> is_linebreak CHR ''N''" "\<not> is_linebreak CHR '' ''" "\<not> is_linebreak CHR ''M''"
  "\<not> is_linebreak CHR ''0''" "\<not> is_linebreak CHR ''2''" "\<not> is_linebreak CHR ''%''"
  "\<not> is_space CHR ''%''"
  by (simp_all add: is_space_def is_digit_def is_linebreak_def cp_def)

lemma numbered_block_number: "0 \<le> n \<Longrightarrow> has_block_number (numbered n t)"
proof -
  assume "0 \<le> n"
  then have s: "str_int n = str_nat (nat n)"
    by (simp add: str_int_def)
  obtain d ds where d: "str_nat (nat n) = d # ds" "is_digit d"
    using str_nat_digits [of "nat n"] by (cases "str_nat (nat n)") auto
  show ?thesis
    by (simp add: has_block_number_def numbered_def s d fixed_chars)
qed

lemma numbered_stripped:
  "t \<noteq> [] \<Longrightarrow> \<not> is_space (last t) \<Longrightarrow> stripped (numbered n t)"
  by (simp add: stripped_def numbered_def fixed_chars)

lemma numbered_no_semicolon:
  "0 \<le> n \<Longrightarrow> CHR '';'' \<notin> set t \<Longrightarrow> CHR '';'' \<notin> set (numbered n t)"
proof -
  assume n: "0 \<le> n" and t: "CHR '';'' \<notin> set t"
  have "CHR '';'' \<notin> set (str_nat (nat n))"
    using str_nat_digits [of "nat n"] fixed_chars(2) by (auto simp: list_all_iff)
  then show ?thesis
    using n t by (simp add: numbered_def str_int_def)
qed

lemma numbered_settled:
  assumes "0 \<le> n" "stripped s" "\<not> (strip_semicolon cfg \<and> CHR '';'' \<in> set s)"
  shows "settled cfg (numbered n (collapse_ws s))"
proof -
  have c: "collapse_ws s \<noteq> []" "\<not> is_space (last (collapse_ws s))"
    using assms(2) collapse_ws_last [of s] by (simp_all add: stripped_def)
  have "CHR '';'' \<notin> set (numbered n (collapse_ws s))" if "CHR '';'' \<notin> set s"
    using that collapse_ws_set [of s] numbered_no_semicolon [OF assms(1), of "collapse_ws s"]
    by auto
  then show ?thesis
    using assms numbered_stripped [OF c] numbered_block_number [OF assms(1)]
    by (auto simp: settled_def)
qed

lemma stop_line_settled: "0 \<le> n \<Longrightarrow> settled cfg (numbered n ''M02'')"
proof -
  assume n: "0 \<le> n"
  have "stripped (numbered n ''M02'')"
    by (rule numbered_stripped) (simp_all add: fixed_chars)
  moreover have "CHR '';'' \<notin> set (numbered n ''M02'')"
    by (rule numbered_no_semicolon [OF n]) simp
  ultimately show ?thesis
    using numbered_block_number [OF n] by (simp add: settled_def)
qed

lemma emitted_settled:
  "0 \<le> n \<Longrightarrow> 0 \<le> step cfg \<Longrightarrow> list_all (settled cfg) (map fst (emitted cfg n src))"
proof (induction src arbitrary: n)
  case Nil
  show ?case by simp
next
  case (Cons ln rest)
  show ?case
  proof (cases "clean_line cfg ln")
    case None
    then show ?thesis using Cons by simp
  next
    case (Some s)
    note cl = clean_line_Some [OF Some]
    show ?thesis
    proof (cases "has_block_number s")
      case True
      then have "settled cfg s"
        using cl by (simp add: settled_def)
      then show ?thesis
        using Some True Cons by simp
    next
      case False
      have "settled cfg (numbered n (collapse_ws s))"
        by (rule numbered_settled [OF Cons.prems(1) cl])
      moreover have "0 \<le> n + step cfg"
        using Cons.prems by simp
      ultimately show ?thesis
        using Some False Cons.IH [of "n + step cfg"] Cons.prems(2) by simp
    qed
  qed
qed

lemma emitted_of_settled:
  "list_all (settled cfg) ls \<Longrightarrow>
     emitted cfg n ls = map (\<lambda>l. (l, None)) ls \<and> counter cfg n ls = n"
  by (induction ls) (simp_all add: clean_line_settled settled_def)

lemma percent_line: "strip ''%'' = ''%''" "\<not> search_M02 ''%''"
  by (simp_all add: strip_def lstrip_def rstrip_def fixed_chars search_M02_def token_at_def)

lemma header_again:
  "header cfg (fst (header cfg src) @ ls) = (fst (header cfg src), ls)"
  by (simp add: header_def percent_line)

lemma loop_of_settled:
  assumes "list_all (settled cfg) ls"
  shows "pure_loop cfg (fst (header cfg src) @ ls)
           = (fst (header cfg src) @ ls, start_n cfg)"
  using emitted_of_settled [OF assms, of "start_n cfg"]
  by (simp add: pure_loop_eq header_again comp_def)

lemma counter_nonneg:
  "0 \<le> n \<Longrightarrow> 0 \<le> step cfg \<Longrightarrow> 0 \<le> counter cfg n src"
proof -
  assume "0 \<le> n" "0 \<le> step cfg"
  then show ?thesis
    using emitted_numbers [of cfg n src] by simp
qed

lemma latin1_roundtrip: "decode_latin1 (encode_latin1 t) = t"
proof -
  have "char_of (unat (of_nat (cp c) :: byte)) = c" for c
    by (simp add: unat_of_nat cp_def)
  then show ?thesis
    by (simp add: decode_latin1_def encode_latin1_def comp_def)
qed

lemma linebreak_chars: "is_linebreak CR" "is_linebreak LF" "CR \<noteq> LF" "LF \<noteq> CR"
  by (simp_all add: is_linebreak_def CR_def LF_def cp_def)

lemma splitlines_from_lf:
  "splitlines_from cur (LF # rest) = rev cur # splitlines_from [] rest"
  by (cases rest) (simp_all add: linebreak_chars)

lemma splitlines_from_cr:
  "splitlines_from cur (CR # rest)
     = rev cur # splitlines_from [] (case rest of [] \<Rightarrow> [] | d # r \<Rightarrow> if d = LF then r else rest)"
  by (cases rest) (simp_all add: linebreak_chars)

lemma splitlines_from_other:
  "c \<noteq> CR \<Longrightarrow>
     splitlines_from cur (c # rest)
       = (if is_linebreak c then rev cur # splitlines_from [] rest
          else splitlines_from (c # cur) rest)"
  by (cases rest) simp_all

lemma splitlines_from_universal:
  "splitlines_from cur (universal_newlines s) = splitlines_from cur s"
proof (induction s arbitrary: cur rule: universal_newlines.induct)
  case 1
  show ?case by simp
next
  case (2 c)
  show ?case by (simp add: linebreak_chars)
next
  case (3 c d rest)
  show ?case
  proof (cases "c = CR")
    case True
    then show ?thesis
      using 3 by (simp add: splitlines_from_lf splitlines_from_cr del: splitlines_from.simps)
  next
    case False
    then show ?thesis
      using 3 by (simp add: splitlines_from_other del: splitlines_from.simps)
  qed
qed

lemma splitlines_universal: "splitlines (universal_newlines s) = splitlines s"
  by (simp add: splitlines_def splitlines_from_universal)

lemma splitlines_from_line_lf:
  "list_all (\<lambda>c. \<not> is_linebreak c) l \<Longrightarrow>
     splitlines_from cur (l @ LF # rest) = (rev cur @ l) # splitlines_from [] rest"
proof (induction l arbitrary: cur)
  case Nil
  show ?case
    by (cases rest) (simp_all add: linebreak_chars)
next
  case (Cons x l)
  obtain d r where dr: "l @ LF # rest = d # r"
    by (cases "l @ LF # rest") simp_all
  have x: "\<not> is_linebreak x" "x \<noteq> CR"
    using Cons.prems linebreak_chars by auto
  have "splitlines_from cur ((x # l) @ LF # rest) = splitlines_from (x # cur) (l @ LF # rest)"
    using x by (simp add: dr)
  then show ?case
    using Cons by simp
qed

lemma splitlines_from_line_crlf:
  "list_all (\<lambda>c. \<not> is_linebreak c) l \<Longrightarrow>
     splitlines_from cur (l @ CR # LF # rest) = (rev cur @ l) # splitlines_from [] rest"
proof (induction l arbitrary: cur)
  case Nil
  show ?case by simp
next
  case (Cons x l)
  obtain d r where dr: "l @ CR # LF # rest = d # r"
    by (cases "l @ CR # LF # rest") simp_all
  have x: "\<not> is_linebreak x" "x \<noteq> CR"
    using Cons.prems linebreak_chars by auto
  have "splitlines_from cur ((x # l) @ CR # LF # rest)
      = splitlines_from (x # cur) (l @ CR # LF # rest)"
    using x by (simp add: dr)
  then show ?case
    using Cons by simp
qed

lemma splitlines_from_line:
  "list_all (\<lambda>c. \<not> is_linebreak c) l \<Longrightarrow>
     splitlines_from [] (l @ eol cfg @ rest) = l # splitlines_from [] rest"
  using splitlines_from_line_lf [of l "[]" rest] splitlines_from_line_crlf [of l "[]" rest]
  by (simp add: eol_def)

lemma serialize_Cons: "serialize cfg (l # ls) = l @ eol cfg @ (if ls = [] then [] else serialize cfg ls)"
  by (cases ls) (simp_all add: serialize_def)

lemma splitlines_serialize:
  "ls \<noteq> [] \<Longrightarrow> list_all (list_all (\<lambda>c. \<not> is_linebreak c)) ls \<Longrightarrow>
     splitlines (serialize cfg ls) = ls"
proof (induction ls)
  case Nil
  then show ?case by simp
next
  case (Cons l ls)
  have l: "list_all (\<lambda>c. \<not> is_linebreak c) l"
    using Cons.prems by simp
  show ?case
  proof (cases "ls = []")
    case True
    then show ?thesis
      using splitlines_from_line [OF l, of cfg "[]"]
      by (simp add: splitlines_def serialize_Cons)
  next
    case False
    then have "splitlines_from [] (serialize cfg ls) = ls"
      using Cons by (simp add: splitlines_def)
    then show ?thesis
      using False splitlines_from_line [OF l, of cfg "serialize cfg ls"]
      by (simp add: splitlines_def serialize_Cons)
  qed
qed

lemma splitlines_serialize_Nil: "splitlines (serialize cfg []) = [[]]"
  by (simp add: splitlines_def serialize_def eol_def linebreak_chars)

lemma splitlines_from_free:
  "list_all (\<lambda>c. \<not> is_linebreak c) cur \<Longrightarrow>
     list_all (list_all (\<lambda>c. \<not> is_linebreak c)) (splitlines_from cur s)"
  by (induction cur s rule: splitlines_from.induct) simp_all

lemma pure_lines_again:
  assumes "0 \<le> start_n cfg" and "0 \<le> step cfg"
  shows "pure_lines cfg (pure_lines cfg src)
           = (if ensure_M02 cfg
              then butlast (pure_lines cfg src) @ [numbered (start_n cfg) ''M02'']
              else pure_lines cfg src)"
proof -
  let ?H = "fst (header cfg src)"
  let ?E = "map fst (emitted cfg (start_n cfg) (snd (header cfg src)))"
  let ?n = "counter cfg (start_n cfg) (snd (header cfg src))"
  have loop: "pure_loop cfg src = (?H @ ?E, ?n)"
    by (rule pure_loop_eq)
  have E: "list_all (settled cfg) ?E"
    by (rule emitted_settled [OF assms])
  show ?thesis
  proof (cases "ensure_M02 cfg")
    case False
    have "pure_lines cfg src = ?H @ ?E"
      using False by (simp add: pure_lines_def loop)
    moreover have "pure_lines cfg (?H @ ?E) = ?H @ ?E"
      using False by (simp add: pure_lines_def loop_of_settled [OF E])
    ultimately show ?thesis
      using False by simp
  next
    case True
    let ?keep = "\<lambda>l. \<not> search_M02 l"
    let ?G = "filter ?keep ?E @ [numbered ?n ''M02'']"
    have H: "filter ?keep ?H = ?H"
      by (simp add: header_fst percent_line)
    have F: "pure_lines cfg src = ?H @ ?G"
      using True by (simp add: pure_lines_def loop H)
    have "0 \<le> ?n"
      by (rule counter_nonneg [OF assms])
    then have G: "list_all (settled cfg) ?G"
      using E stop_line_settled [of ?n cfg] by (auto simp: list_all_iff)
    have "pure_lines cfg (?H @ ?G)
        = filter ?keep (?H @ ?G) @ [numbered (start_n cfg) ''M02'']"
      using True by (simp add: pure_lines_def loop_of_settled [OF G])
    also have "filter ?keep (?H @ ?G) = ?H @ filter ?keep ?E"
      by (simp add: H search_M02_numbered)
    also have "?H @ filter ?keep ?E = butlast (?H @ ?G)"
      by (simp add: butlast_append)
    finally show ?thesis
      using True F by simp
  qed
qed


lemma clean_line_set: "clean_line cfg ln = Some s \<Longrightarrow> set s \<subseteq> set ln"
  using strip_set [of ln] rstrip_set [of "takeWhile (\<lambda>c. c \<noteq> CHR '';'') (strip ln)"]
    set_takeWhileD [of _ "\<lambda>c. c \<noteq> CHR '';''" "strip ln"]
  by (auto simp: clean_line_def Let_def split: if_splits)

lemma digit_not_linebreak: "is_digit c \<Longrightarrow> \<not> is_linebreak c"
  by (simp add: is_digit_def is_linebreak_def)

lemma numbered_free:
  assumes "0 \<le> n" "\<forall>c\<in>set t. \<not> is_linebreak c"
  shows "\<forall>c\<in>set (numbered n t). \<not> is_linebreak c"
proof -
  have "\<forall>c\<in>set (str_nat (nat n)). \<not> is_linebreak c"
    using str_nat_digits [of "nat n"] digit_not_linebreak by (auto simp: list_all_iff)
  then show ?thesis
    using assms by (auto simp: numbered_def str_int_def fixed_chars)
qed

lemma collapse_ws_free:
  "\<forall>c\<in>set s. \<not> is_linebreak c \<Longrightarrow> \<forall>c\<in>set (collapse_ws s). \<not> is_linebreak c"
  using collapse_ws_set [of s] fixed_chars(5) by auto

lemma emitted_free:
  "0 \<le> n \<Longrightarrow> 0 \<le> step cfg \<Longrightarrow> \<forall>l\<in>set src. \<forall>c\<in>set l. \<not> is_linebreak c \<Longrightarrow>
     \<forall>l\<in>set (map fst (emitted cfg n src)). \<forall>c\<in>set l. \<not> is_linebreak c"
proof (induction src arbitrary: n)
  case Nil
  show ?case by simp
next
  case (Cons ln rest)
  have rest: "\<forall>l\<in>set rest. \<forall>c\<in>set l. \<not> is_linebreak c"
    using Cons.prems(3) by simp
  show ?case
  proof (cases "clean_line cfg ln")
    case None
    then show ?thesis using Cons.IH [OF Cons.prems(1,2) rest] by simp
  next
    case (Some s)
    have s: "\<forall>c\<in>set s. \<not> is_linebreak c"
      using clean_line_set [OF Some] Cons.prems(3) by auto
    show ?thesis
    proof (cases "has_block_number s")
      case True
      then show ?thesis
        using Some s Cons.IH [OF Cons.prems(1,2) rest] by simp
    next
      case False
      have n': "0 \<le> n + step cfg"
        using Cons.prems by simp
      have "\<forall>c\<in>set (numbered n (collapse_ws s)). \<not> is_linebreak c"
        by (rule numbered_free [OF Cons.prems(1) collapse_ws_free [OF s]])
      then show ?thesis
        using Some False Cons.IH [OF n' Cons.prems(2) rest] by simp
    qed
  qed
qed

lemma pure_lines_free:
  assumes "0 \<le> start_n cfg" "0 \<le> step cfg"
    and src: "\<forall>l\<in>set src. \<forall>c\<in>set l. \<not> is_linebreak c"
  shows "\<forall>l\<in>set (pure_lines cfg src). \<forall>c\<in>set l. \<not> is_linebreak c"
proof -
  let ?E = "map fst (emitted cfg (start_n cfg) (snd (header cfg src)))"
  let ?n = "counter cfg (start_n cfg) (snd (header cfg src))"
  have "\<forall>l\<in>set (snd (header cfg src)). \<forall>c\<in>set l. \<not> is_linebreak c"
    using src header_snd_set [of cfg src] by blast
  then have E: "\<forall>l\<in>set ?E. \<forall>c\<in>set l. \<not> is_linebreak c"
    by (rule emitted_free [OF assms(1,2)])
  have H: "\<forall>l\<in>set (fst (header cfg src)). \<forall>c\<in>set l. \<not> is_linebreak c"
    by (simp add: header_fst fixed_chars)
  have "0 \<le> ?n"
    by (rule counter_nonneg [OF assms(1,2)])
  then have stop: "\<forall>c\<in>set (numbered ?n ''M02''). \<not> is_linebreak c"
    by (rule numbered_free) (simp add: fixed_chars)
  show ?thesis
    using E H stop by (auto simp: pure_lines_def pure_loop_eq)
qed

lemma pure_lines_blank:
  "pure_lines cfg src = [] \<Longrightarrow>
     pure_lines cfg [[]] = [] \<and> pure_lines cfg [] = []"
proof -
  assume e: "pure_lines cfg src = []"
  have "\<not> ensure_M02 cfg"
    using e by (auto simp: pure_lines_def split: prod.splits)
  moreover have "\<not> add_percent cfg"
    using e calculation by (auto simp: pure_lines_def pure_loop_eq header_fst)
  moreover have "clean_line cfg [] = None"
    by (simp add: clean_line_def strip_def lstrip_def rstrip_def)
  ultimately show ?thesis
    by (simp add: pure_lines_def pure_loop_eq header_def)
qed

lemma traced_loop_of_settled:
  assumes "list_all (settled cfg) ls"
  shows "pure_traced_loop cfg (fst (header cfg src) @ ls)
           = (map (\<lambda>l. (l, None)) (fst (header cfg src) @ ls), start_n cfg)"
  using emitted_of_settled [OF assms, of "start_n cfg"]
  by (simp add: pure_traced_loop_eq header_again)

lemma pure_lines_shape:
  assumes "0 \<le> start_n cfg" and "0 \<le> step cfg"
  shows "\<exists>G. pure_lines cfg src = fst (header cfg src) @ G \<and> list_all (settled cfg) G"
proof -
  let ?H = "fst (header cfg src)"
  let ?E = "map fst (emitted cfg (start_n cfg) (snd (header cfg src)))"
  let ?n = "counter cfg (start_n cfg) (snd (header cfg src))"
  have loop: "pure_loop cfg src = (?H @ ?E, ?n)"
    by (rule pure_loop_eq)
  have E: "list_all (settled cfg) ?E"
    by (rule emitted_settled [OF assms])
  show ?thesis
  proof (cases "ensure_M02 cfg")
    case False
    then have "pure_lines cfg src = ?H @ ?E"
      by (simp add: pure_lines_def loop)
    then show ?thesis using E by blast
  next
    case True
    let ?keep = "\<lambda>l. \<not> search_M02 l"
    let ?G = "filter ?keep ?E @ [numbered ?n ''M02'']"
    have H: "filter ?keep ?H = ?H"
      by (simp add: header_fst percent_line)
    have F: "pure_lines cfg src = ?H @ ?G"
      using True by (simp add: pure_lines_def loop H)
    have "0 \<le> ?n"
      by (rule counter_nonneg [OF assms])
    then have "list_all (settled cfg) ?G"
      using E stop_line_settled [of ?n cfg] by (auto simp: list_all_iff)
    then show ?thesis using F by blast
  qed
qed

lemma numbers_written_again:
  assumes "0 \<le> start_n cfg" and "0 \<le> step cfg"
  shows "numbers_written cfg (pure_lines cfg src)
           = (if ensure_M02 cfg then [start_n cfg] else [])"
proof -
  obtain G where G: "pure_lines cfg src = fst (header cfg src) @ G"
      "list_all (settled cfg) G"
    using pure_lines_shape [OF assms] by blast
  show ?thesis
    unfolding G(1)
    by (simp add: numbers_written_def traced_loop_of_settled [OF G(2)] header_numbers
        del: map_append)
qed

lemma run_again:
  assumes "0 \<le> start_n cfg" and "0 \<le> step cfg"
    and run: "normalize_lines cfg src = Inr F"
  shows "normalize_lines cfg F
           = Inr (if ensure_M02 cfg
                  then butlast F @ [numbered (start_n cfg) ''M02'']
                  else F)"
proof -
  have w: "list_all printable (numbers_written cfg src)" and F: "F = pure_lines cfg src"
    using run by (simp_all add: normalize_lines_eq split: if_splits)
  have "printable (start_n cfg)" if "ensure_M02 cfg"
    using start_written [OF that, of src] w by (simp add: list_all_iff)
  then have "list_all printable (numbers_written cfg F)"
    unfolding F by (simp add: numbers_written_again [OF assms(1,2)])
  then show ?thesis
    using pure_lines_again [OF assms(1,2), of src] by (simp add: normalize_lines_eq F)
qed

lemma blank_run: "pure_lines cfg src = [] \<Longrightarrow> normalize_lines cfg [[]] = Inr []"
proof -
  assume e: "pure_lines cfg src = []"
  have n: "\<not> ensure_M02 cfg"
    using e by (auto simp: pure_lines_def split: prod.splits)
  then have a: "\<not> add_percent cfg"
    using e by (auto simp: pure_lines_def pure_loop_eq header_fst)
  have "clean_line cfg [] = None"
    by (simp add: clean_line_def strip_def lstrip_def rstrip_def)
  then have "numbers_written cfg [[]] = []"
    using n a by (simp add: numbers_written_def pure_traced_loop_def header_def)
  then show ?thesis
    using pure_lines_blank [OF e] by (simp add: normalize_lines_eq)
qed

lemma reread_output:
  assumes "list_all (list_all (\<lambda>c. \<not> is_linebreak c)) F"
  shows "splitlines (read_text_latin1 (encode_latin1 (serialize cfg F)))
           = (if F = [] then [[]] else F)"
proof -
  have "splitlines (read_text_latin1 (encode_latin1 (serialize cfg F)))
      = splitlines (serialize cfg F)"
    by (simp add: read_text_latin1_def latin1_roundtrip splitlines_universal)
  then show ?thesis
    using splitlines_serialize [OF _ assms] by (simp add: splitlines_serialize_Nil)
qed

lemma file_lines_free:
  assumes "0 \<le> start_n cfg" and "0 \<le> step cfg"
  shows "list_all (list_all (\<lambda>c. \<not> is_linebreak c))
           (pure_lines cfg (splitlines (read_text_latin1 data)))"
proof -
  have "list_all (list_all (\<lambda>c. \<not> is_linebreak c)) (splitlines (read_text_latin1 data))"
    unfolding splitlines_def by (rule splitlines_from_free) simp
  then have "\<forall>l\<in>set (splitlines (read_text_latin1 data)). \<forall>c\<in>set l. \<not> is_linebreak c"
    by (simp add: list_all_iff)
  then have "\<forall>l\<in>set (pure_lines cfg (splitlines (read_text_latin1 data))).
      \<forall>c\<in>set l. \<not> is_linebreak c"
    by (rule pure_lines_free [OF assms])
  then show ?thesis
    by (simp add: list_all_iff)
qed

lemma file_again:
  assumes "0 \<le> start_n cfg" and "0 \<le> step cfg"
    and run: "normalize_to_iso cfg data = Inr out"
  shows "\<exists>F. normalize_lines cfg (splitlines (read_text_latin1 data)) = Inr F
           \<and> out = encode_latin1 (serialize cfg F)
           \<and> normalize_to_iso cfg out
               = Inr (encode_latin1 (serialize cfg
                   (if ensure_M02 cfg
                    then butlast F @ [numbered (start_n cfg) ''M02'']
                    else F)))"
proof -
  obtain F where F: "normalize_lines cfg (splitlines (read_text_latin1 data)) = Inr F"
      and out: "out = encode_latin1 (serialize cfg F)"
    using run by (auto simp: normalize_to_iso_def split: sum.splits)
  have p: "F = pure_lines cfg (splitlines (read_text_latin1 data))"
    using F by (simp add: normalize_lines_eq split: if_splits)
  have free: "list_all (list_all (\<lambda>c. \<not> is_linebreak c)) F"
    unfolding p by (rule file_lines_free [OF assms(1,2)])
  have again: "normalize_lines cfg F
      = Inr (if ensure_M02 cfg then butlast F @ [numbered (start_n cfg) ''M02''] else F)"
    by (rule run_again [OF assms(1,2) F])
  have r: "splitlines (read_text_latin1 out) = (if F = [] then [[]] else F)"
    unfolding out by (rule reread_output [OF free])
  have "normalize_lines cfg (splitlines (read_text_latin1 out))
      = Inr (if ensure_M02 cfg then butlast F @ [numbered (start_n cfg) ''M02''] else F)"
  proof (cases "F = []")
    case True
    have "\<not> ensure_M02 cfg"
      using p True by (auto simp: pure_lines_def split: prod.splits)
    moreover have "normalize_lines cfg [[]] = Inr []"
      using p True blank_run [of cfg "splitlines (read_text_latin1 data)"] by simp
    ultimately show ?thesis
      using True by (simp add: r)
  next
    case False
    then show ?thesis
      using again by (simp add: r)
  qed
  then have "normalize_to_iso cfg out
      = Inr (encode_latin1 (serialize cfg
          (if ensure_M02 cfg then butlast F @ [numbered (start_n cfg) ''M02''] else F)))"
    by (simp add: normalize_to_iso_def)
  then show ?thesis
    using F out by blast
qed

lemma again_example:
  "normalize_lines default_config [''G01''] = Inr [''%'', ''N10 G01'', ''N20 M02'']"
  "normalize_lines default_config [''%'', ''N10 G01'', ''N20 M02'']
     = Inr [''%'', ''N10 G01'', ''N10 M02'']"
  by code_simp+

lemma again_example_bytes:
  "normalize_to_iso default_config [0x47, 0x30, 0x31]
     = Inr [0x25, 0x0D, 0x0A, 0x4E, 0x31, 0x30, 0x20, 0x47, 0x30, 0x31, 0x0D, 0x0A,
            0x4E, 0x32, 0x30, 0x20, 0x4D, 0x30, 0x32, 0x0D, 0x0A]"
  "normalize_to_iso default_config
     [0x25, 0x0D, 0x0A, 0x4E, 0x31, 0x30, 0x20, 0x47, 0x30, 0x31, 0x0D, 0x0A,
      0x4E, 0x32, 0x30, 0x20, 0x4D, 0x30, 0x32, 0x0D, 0x0A]
     = Inr [0x25, 0x0D, 0x0A, 0x4E, 0x31, 0x30, 0x20, 0x47, 0x30, 0x31, 0x0D, 0x0A,
            0x4E, 0x31, 0x30, 0x20, 0x4D, 0x30, 0x32, 0x0D, 0x0A]"
  by code_simp+

lemma keep_example:
  "normalize_lines \<lparr> start_n = 10, step = 10, add_percent = True, ensure_M02 = False,
       crlf = True, strip_semicolon = True \<rparr> [''G01  X1 ; cut'', '' N7 G02'']
     = Inr [''%'', ''N10 G01 X1'', ''N7 G02'']"
  by code_simp

text \<open>
  Claim C1, as stated, fails: with the default configuration the source line
  \<^verbatim>\<open>G01\<close> gives the lines \<^verbatim>\<open>%\<close>, \<^verbatim>\<open>N10 G01\<close>, \<^verbatim>\<open>N20 M02\<close>, and these give
  \<^verbatim>\<open>%\<close>, \<^verbatim>\<open>N10 G01\<close>, \<^verbatim>\<open>N10 M02\<close>: the second run numbers no line, so its stop
  line gets the start value. The bytes written differ in the same way.
\<close>

theorem normalize_not_idempotent:
  "normalize_lines default_config [''G01''] = Inr [''%'', ''N10 G01'', ''N20 M02'']
   \<and> normalize_lines default_config [''%'', ''N10 G01'', ''N20 M02'']
       = Inr [''%'', ''N10 G01'', ''N10 M02'']
   \<and> normalize_lines default_config [''%'', ''N10 G01'', ''N20 M02'']
       \<noteq> Inr [''%'', ''N10 G01'', ''N20 M02'']
   \<and> normalize_to_iso default_config [0x47, 0x30, 0x31]
       = Inr [0x25, 0x0D, 0x0A, 0x4E, 0x31, 0x30, 0x20, 0x47, 0x30, 0x31, 0x0D, 0x0A,
              0x4E, 0x32, 0x30, 0x20, 0x4D, 0x30, 0x32, 0x0D, 0x0A]
   \<and> normalize_to_iso default_config
         [0x25, 0x0D, 0x0A, 0x4E, 0x31, 0x30, 0x20, 0x47, 0x30, 0x31, 0x0D, 0x0A,
          0x4E, 0x32, 0x30, 0x20, 0x4D, 0x30, 0x32, 0x0D, 0x0A]
       \<noteq> Inr [0x25, 0x0D, 0x0A, 0x4E, 0x31, 0x30, 0x20, 0x47, 0x30, 0x31, 0x0D, 0x0A,
               0x4E, 0x32, 0x30, 0x20, 0x4D, 0x30, 0x32, 0x0D, 0x0A]"
  unfolding again_example again_example_bytes by simp

text \<open>
  Claim C1, amended. For a configuration whose start value and increment are not
  negative, normalizing the output of a run again with the same configuration returns,
  and gives the same lines when \<^verbatim>\<open>ensure_M02\<close> is off, and then the bytes written are
  identical; when it is on, it gives the same lines up to the last one, and the stop line
  again with the start value as its number. This holds for line sequences and for the
  files read and written by \<^verbatim>\<open>normalize_to_iso\<close>. The first run returns whenever every
  number it writes has at most 4300 decimal digits.
\<close>

theorem normalize_again:
  assumes "0 \<le> start_n cfg" and "0 \<le> step cfg"
  shows "(\<forall>F. normalize_lines cfg src = Inr F \<longrightarrow>
            normalize_lines cfg F
              = Inr (if ensure_M02 cfg
                     then butlast F @ [numbered (start_n cfg) ''M02'']
                     else F))
         \<and> (\<forall>out. normalize_to_iso cfg data = Inr out \<longrightarrow>
              (\<exists>F. normalize_lines cfg (splitlines (read_text_latin1 data)) = Inr F
                 \<and> out = encode_latin1 (serialize cfg F)
                 \<and> normalize_to_iso cfg out
                     = Inr (encode_latin1 (serialize cfg
                         (if ensure_M02 cfg
                          then butlast F @ [numbered (start_n cfg) ''M02'']
                          else F)))))
         \<and> (\<not> ensure_M02 cfg \<longrightarrow>
              (\<forall>out. normalize_to_iso cfg data = Inr out \<longrightarrow>
                 normalize_to_iso cfg out = Inr out))
         \<and> (list_all printable (numbers_written cfg src) \<longrightarrow>
              (\<exists>F. normalize_lines cfg src = Inr F))
         \<and> (list_all printable (numbers_written cfg (splitlines (read_text_latin1 data))) \<longrightarrow>
              (\<exists>out. normalize_to_iso cfg data = Inr out))"
proof (intro conjI allI impI)
  fix F
  assume "normalize_lines cfg src = Inr F"
  then show "normalize_lines cfg F
      = Inr (if ensure_M02 cfg then butlast F @ [numbered (start_n cfg) ''M02''] else F)"
    by (rule run_again [OF assms])
next
  fix out
  assume "normalize_to_iso cfg data = Inr out"
  then show "\<exists>F. normalize_lines cfg (splitlines (read_text_latin1 data)) = Inr F
      \<and> out = encode_latin1 (serialize cfg F)
      \<and> normalize_to_iso cfg out
          = Inr (encode_latin1 (serialize cfg
              (if ensure_M02 cfg then butlast F @ [numbered (start_n cfg) ''M02''] else F)))"
    by (rule file_again [OF assms])
next
  fix out
  assume "\<not> ensure_M02 cfg" and "normalize_to_iso cfg data = Inr out"
  then show "normalize_to_iso cfg out = Inr out"
    using file_again [OF assms, of data out] by auto
next
  assume "list_all printable (numbers_written cfg src)"
  then show "\<exists>F. normalize_lines cfg src = Inr F"
    by (simp add: normalize_lines_eq)
next
  assume "list_all printable (numbers_written cfg (splitlines (read_text_latin1 data)))"
  then show "\<exists>out. normalize_to_iso cfg data = Inr out"
    by (simp add: normalize_to_iso_def normalize_lines_eq)
qed

theorem normalize_again_witness:
  "0 \<le> start_n \<lparr> start_n = 10, step = 10, add_percent = True, ensure_M02 = False,
       crlf = True, strip_semicolon = True \<rparr>
   \<and> 0 \<le> step \<lparr> start_n = 10, step = 10, add_percent = True, ensure_M02 = False,
       crlf = True, strip_semicolon = True \<rparr>
   \<and> normalize_lines \<lparr> start_n = 10, step = 10, add_percent = True, ensure_M02 = False,
       crlf = True, strip_semicolon = True \<rparr> [''G01  X1 ; cut'', '' N7 G02'']
       = Inr [''%'', ''N10 G01 X1'', ''N7 G02'']
   \<and> normalize_lines \<lparr> start_n = 10, step = 10, add_percent = True, ensure_M02 = False,
       crlf = True, strip_semicolon = True \<rparr> [''%'', ''N10 G01 X1'', ''N7 G02'']
       = Inr [''%'', ''N10 G01 X1'', ''N7 G02'']"
proof -
  let ?c = "\<lparr> start_n = 10, step = 10, add_percent = True, ensure_M02 = False,
       crlf = True, strip_semicolon = True \<rparr>"
  have h: "0 \<le> start_n ?c" "0 \<le> step ?c"
    by simp_all
  show ?thesis
    using normalize_again [OF h, of "[''G01  X1 ; cut'', '' N7 G02'']"] keep_example
    by simp
qed

end
